theory Spec2Isabelle
  imports Main "HOL-Library.Word" "HOL-Library.Multiset"
begin

unbundle bit_operations_syntax

section \<open>Errors\<close>

text \<open>
  Both address classes signal failure by throwing \<^verbatim>\<open>std::runtime_error\<close>. The model keeps
  the two throw sites apart: a parse failure carries the text of \<^verbatim>\<open>what()\<close>, a prefix outside
  the address width is its own constructor.
\<close>

datatype error = MalformedAddress string | InvalidPrefix

section \<open>IPAddress.h: the 32-bit address class\<close>

text \<open>
  Class \<^verbatim>\<open>IPv4\<close> has the single field \<^verbatim>\<open>uint32_t value\<close>; an object is that word. The
  argument \<^verbatim>\<open>prefix\<close> is a \<^verbatim>\<open>short\<close>, modelled as an integer. The C++ shifts are defined only
  for amounts below the operand width; every theorem below calls the functions with a prefix in
  \<open>[0, 32]\<close>, where the amount \<open>32 - prefix\<close> of a shift that is reached lies in \<open>[0, 31]\<close>.
\<close>

type_synonym IPv4 = "32 word"

definition IPv4_bit_length :: int where
  "IPv4_bit_length = 32"

definition IPv4_network_zeros :: "IPv4 \<Rightarrow> int \<Rightarrow> IPv4" where
  "IPv4_network_zeros v prefix =
     (if prefix = 0 then 0
      else v AND push_bit (nat (32 - prefix)) 0xffffffff)"

definition IPv4_network_ones :: "IPv4 \<Rightarrow> int \<Rightarrow> IPv4" where
  "IPv4_network_ones v prefix =
     (if prefix = 0 then 0xffffffff
      else v OR NOT (push_bit (nat (32 - prefix)) 0xffffffff))"

definition IPv4_next :: "IPv4 \<Rightarrow> int \<Rightarrow> error + IPv4" where
  "IPv4_next v prefix =
     (if prefix < 0 \<or> prefix > IPv4_bit_length then Inl InvalidPrefix
      else Inr (v + push_bit (nat (32 - prefix)) 1))"

definition IPv4_previous :: "IPv4 \<Rightarrow> int \<Rightarrow> error + IPv4" where
  "IPv4_previous v prefix =
     (if prefix < 0 \<or> prefix > IPv4_bit_length then Inl InvalidPrefix
      else Inr (v - push_bit (nat (32 - prefix)) 1))"

definition IPv4_less :: "IPv4 \<Rightarrow> IPv4 \<Rightarrow> bool" where
  "IPv4_less a b = (a < b)"

definition IPv4_less_eq :: "IPv4 \<Rightarrow> IPv4 \<Rightarrow> bool" where
  "IPv4_less_eq a b = (a \<le> b)"

section \<open>IPAddress.h: the 128-bit address class\<close>

text \<open>
  Class \<^verbatim>\<open>IPv6\<close> holds the high 64 bits in \<^verbatim>\<open>network\<close> and the low 64 bits in \<^verbatim>\<open>host\<close>.
  \<^verbatim>\<open>operator==\<close> compares both fields, which is equality of the record.
\<close>

record IPv6 =
  network :: "64 word"
  host :: "64 word"

definition IPv6_bit_length :: int where
  "IPv6_bit_length = 128"

definition IPv6_network_zeros :: "IPv6 \<Rightarrow> int \<Rightarrow> IPv6" where
  "IPv6_network_zeros a prefix =
     (if prefix = 0 then \<lparr>network = 0, host = 0\<rparr>
      else if prefix > 64 then
        \<lparr>network = network a,
         host = host a AND push_bit (nat (128 - prefix)) 0xffffffffffffffff\<rparr>
      else
        \<lparr>network = network a AND push_bit (nat (64 - prefix)) 0xffffffffffffffff,
         host = 0\<rparr>)"

definition IPv6_network_ones :: "IPv6 \<Rightarrow> int \<Rightarrow> IPv6" where
  "IPv6_network_ones a prefix =
     (if prefix = 0 then \<lparr>network = 0xffffffffffffffff, host = 0xffffffffffffffff\<rparr>
      else if prefix > 64 then
        \<lparr>network = network a,
         host = host a OR NOT (push_bit (nat (128 - prefix)) 0xffffffffffffffff)\<rparr>
      else
        \<lparr>network = network a OR NOT (push_bit (nat (64 - prefix)) 0xffffffffffffffff),
         host = 0xffffffffffffffff\<rparr>)"

definition IPv6_next :: "IPv6 \<Rightarrow> int \<Rightarrow> error + IPv6" where
  "IPv6_next a prefix =
     (if prefix < 0 \<or> prefix > IPv6_bit_length then Inl InvalidPrefix
      else if prefix \<le> 64 then
        Inr \<lparr>network = network a + push_bit (nat (64 - prefix)) 1, host = host a\<rparr>
      else
        (let newhost = host a + push_bit (nat (128 - prefix)) 1
         in Inr \<lparr>network = network a + (if newhost < host a then 1 else 0),
                 host = newhost\<rparr>))"

definition IPv6_previous :: "IPv6 \<Rightarrow> int \<Rightarrow> error + IPv6" where
  "IPv6_previous a prefix =
     (if prefix < 0 \<or> prefix > IPv6_bit_length then Inl InvalidPrefix
      else if prefix \<le> 64 then
        Inr \<lparr>network = network a - push_bit (nat (64 - prefix)) 1, host = host a\<rparr>
      else
        (let newhost = host a - push_bit (nat (128 - prefix)) 1
         in Inr \<lparr>network = network a - (if newhost > host a then 1 else 0),
                 host = newhost\<rparr>))"

definition IPv6_less :: "IPv6 \<Rightarrow> IPv6 \<Rightarrow> bool" where
  "IPv6_less a b =
     (network a < network b \<or> (network a = network b \<and> host a < host b))"

definition IPv6_greater :: "IPv6 \<Rightarrow> IPv6 \<Rightarrow> bool" where
  "IPv6_greater a b =
     (network a > network b \<or> (network a = network b \<and> host a > host b))"

definition IPv6_less_eq :: "IPv6 \<Rightarrow> IPv6 \<Rightarrow> bool" where
  "IPv6_less_eq a b = (\<not> IPv6_greater a b)"

text \<open>The 128-bit number an \<^verbatim>\<open>IPv6\<close> object stands for: \<^verbatim>\<open>network\<close> above \<^verbatim>\<open>host\<close>.\<close>

definition IPv6_value :: "IPv6 \<Rightarrow> 128 word" where
  "IPv6_value a = word_cat (network a) (host a)"

section \<open>IPAddress.h: what the classes use of the stream library\<close>

text \<open>
  Both classes print numbers by inserting them into a \<^verbatim>\<open>std::stringstream\<close>, after \<^verbatim>\<open>std::dec\<close> or
  \<^verbatim>\<open>std::hex\<close>, and \<^verbatim>\<open>IPv6::parse_segment\<close> extracts one from a stream after \<^verbatim>\<open>std::hex\<close>. The
  stream library is not part of the repository; these functions state what it does for the
  calls the classes make. An unsigned number is printed with the digits of its value in the
  base, most significant first, no leading zero and no prefix, the digits above nine as the
  lower-case letters \<^verbatim>\<open>a\<close> to \<^verbatim>\<open>f\<close> (\<^verbatim>\<open>std::uppercase\<close> is never set); zero prints as \<^verbatim>\<open>0\<close>.
  Reading a \<^verbatim>\<open>uint16_t\<close> after \<^verbatim>\<open>std::hex\<close> takes hexadecimal digits of either case; a value above
  \<^verbatim>\<open>0xffff\<close> is stored as \<^verbatim>\<open>0xffff\<close> (the rule of C++11, with which the program is built).
  \<^verbatim>\<open>parse_segment\<close> is only ever given characters the parser has checked to be hexadecimal
  digits, so no other character is modelled.
\<close>

definition digit_char :: "nat \<Rightarrow> char" where
  "digit_char d = (if d < 10 then char_of (48 + d) else char_of (87 + d))"

function ostream_dec :: "nat \<Rightarrow> string" where
  "ostream_dec n = (if n < 10 then [digit_char n] else ostream_dec (n div 10) @ [digit_char (n mod 10)])"
  by pat_completeness auto
termination
  by (relation "measure id") auto

function ostream_hex :: "nat \<Rightarrow> string" where
  "ostream_hex n = (if n < 16 then [digit_char n] else ostream_hex (n div 16) @ [digit_char (n mod 16)])"
  by pat_completeness auto
termination
  by (relation "measure id") auto

declare ostream_dec.simps [simp del] ostream_hex.simps [simp del]

definition hex_digit_value :: "char \<Rightarrow> nat" where
  "hex_digit_value c =
     (if (of_char CHR ''a'' :: nat) \<le> of_char c \<and> of_char c \<le> (of_char CHR ''f'' :: nat)
        then of_char c - of_char CHR ''a'' + 10
      else if (of_char CHR ''A'' :: nat) \<le> of_char c \<and> of_char c \<le> (of_char CHR ''F'' :: nat)
        then of_char c - of_char CHR ''A'' + 10
      else of_char c - of_char CHR ''0'')"

definition istream_hex :: "string \<Rightarrow> 16 word" where
  "istream_hex s =
     (let n = foldl (\<lambda>a c. 16 * a + hex_digit_value c) 0 s
      in if n > 0xffff then 0xffff else of_nat n)"

section \<open>IPAddress.h: text of a 32-bit address\<close>

text \<open>
  \<^verbatim>\<open>IPv4::parse\<close> and \<^verbatim>\<open>IPv4::to_string\<close>. The loop of \<^verbatim>\<open>parse\<close> is \<^verbatim>\<open>IPv4_parse_loop\<close>, with the
  variables \<^verbatim>\<open>value\<close>, \<^verbatim>\<open>octet\<close> and \<^verbatim>\<open>count\<close> as arguments; every \<^verbatim>\<open>throw\<close> is the result \<^verbatim>\<open>None\<close>,
  which \<^verbatim>\<open>IPv4_parse\<close> turns into the error with the text the constructor builds. \<^verbatim>\<open>octet\<close> is
  an \<^verbatim>\<open>int\<close> in the source and an unbounded integer here: the two agree until a run of digits
  overflows \<^verbatim>\<open>int\<close>, which is undefined in C++. On the empty string, where the source reads
  \<^verbatim>\<open>*begin\<close> at the end of the string, the test for a leading dot is taken to fail; the string is
  then rejected by the test on \<^verbatim>\<open>count\<close>.
\<close>

definition is_digit :: "char \<Rightarrow> bool" where
  "is_digit c = (of_char c \<le> (of_char CHR ''9'' :: nat) \<and> of_char c \<ge> (of_char CHR ''0'' :: nat))"

fun IPv4_parse_loop :: "string \<Rightarrow> 32 word \<Rightarrow> int \<Rightarrow> int \<Rightarrow> (32 word \<times> int \<times> int) option" where
  "IPv4_parse_loop [] val octet cnt = Some (val, octet, cnt)"
| "IPv4_parse_loop (c # rest) val octet cnt =
     (if is_digit c then
        IPv4_parse_loop rest val (octet * 10 + (int (of_char c) - int (of_char CHR ''0''))) cnt
      else if c = CHR ''.'' \<and> octet < 256 then
        (if rest = [] then None
         else if hd rest = CHR ''.'' then None
         else IPv4_parse_loop rest (push_bit 8 val OR word_of_int octet) 0 (cnt + 1))
      else None)"

definition IPv4_parse :: "string \<Rightarrow> error + IPv4" where
  "IPv4_parse text =
     (let invalid_format = MalformedAddress (''Invalid IPv4 format ('' @ text @ '')'') in
      if text \<noteq> [] \<and> hd text = CHR ''.'' then Inl invalid_format
      else
        (case IPv4_parse_loop text 0 0 0 of
           None \<Rightarrow> Inl invalid_format
         | Some (val, octet, cnt) \<Rightarrow>
             if cnt \<noteq> 3 \<or> octet \<ge> 256 then Inl invalid_format
             else Inr (push_bit 8 val OR word_of_int octet)))"

definition IPv4_to_string :: "IPv4 \<Rightarrow> string" where
  "IPv4_to_string v =
     ostream_dec (unat (drop_bit 24 v AND 0xff)) @ ''.''
     @ ostream_dec (unat (drop_bit 16 v AND 0xff)) @ ''.''
     @ ostream_dec (unat (drop_bit 8 v AND 0xff)) @ ''.''
     @ ostream_dec (unat (drop_bit 0 v AND 0xff))"

section \<open>IPAddress.h: text of a 128-bit address\<close>

text \<open>
  \<^verbatim>\<open>IPv6::segmentize\<close> and \<^verbatim>\<open>IPv6::collapse\<close>, called by \<^verbatim>\<open>IPv6::to_string\<close>. The iterators of
  \<^verbatim>\<open>collapse\<close> are indices into the vector, the iterator \<^verbatim>\<open>end\<close> is its length. \<^verbatim>\<open>collapse_scan\<close> is
  the first loop, on the state \<^verbatim>\<open>(collapse, collapse_start, collapse_end)\<close>; \<^verbatim>\<open>collapse_range\<close>
  adds the two tests that follow the loop and returns the range that is printed as \<^verbatim>\<open>::\<close>,
  with \<^verbatim>\<open>collapse_start = end\<close> when nothing is collapsed; \<^verbatim>\<open>collapse_print\<close> is the second loop.
\<close>

definition segmentize :: "IPv6 \<Rightarrow> 16 word list" where
  "segmentize a =
     map (\<lambda>i. ucast (drop_bit (48 - i * 16) (network a) AND 0xffff)) [0 ..< 4]
     @ map (\<lambda>i. ucast (drop_bit (48 - i * 16) (host a) AND 0xffff)) [0 ..< 4]"

fun collapse_scan :: "16 word list \<Rightarrow> nat \<Rightarrow> nat \<Rightarrow> nat \<times> nat \<times> nat \<Rightarrow> nat \<times> nat \<times> nat" where
  "collapse_scan [] end iter st = st"
| "collapse_scan (x # xs) end iter (collapse, collapse_start, collapse_end) =
     (if x = 0 then
        collapse_scan xs end (iter + 1)
          (if collapse = end then iter else collapse, collapse_start, collapse_end)
      else if collapse \<noteq> end then
        (if int iter - int collapse > int collapse_end - int collapse_start
         then collapse_scan xs end (iter + 1) (end, collapse, iter)
         else collapse_scan xs end (iter + 1) (end, collapse_start, collapse_end))
      else collapse_scan xs end (iter + 1) (collapse, collapse_start, collapse_end))"

definition collapse_range :: "16 word list \<Rightarrow> nat \<times> nat" where
  "collapse_range segs =
     (let end = length segs;
          (collapse, collapse_start, collapse_end) = collapse_scan segs end 0 (end, end, end);
          (collapse_start, collapse_end) =
             (if collapse \<noteq> end \<and> int end - int collapse > int collapse_end - int collapse_start
              then (collapse, end) else (collapse_start, collapse_end));
          collapse_start = (if int collapse_end - int collapse_start = 1 then end else collapse_start)
      in (collapse_start, collapse_end))"

definition collapse_print :: "16 word list \<Rightarrow> nat \<Rightarrow> nat \<Rightarrow> string" where
  "collapse_print segs collapse_start collapse_end =
     concat (map (\<lambda>iter.
        (if iter = collapse_start then ''::'' else [])
        @ (if iter \<ge> collapse_start \<and> iter < collapse_end then []
           else ostream_hex (unat (segs ! iter))
                @ (if iter + 1 \<noteq> length segs \<and> iter + 1 \<noteq> collapse_start then '':'' else [])))
       [0 ..< length segs])"

definition collapse :: "16 word list \<Rightarrow> string" where
  "collapse segs = (case collapse_range segs of (collapse_start, collapse_end) \<Rightarrow>
      collapse_print segs collapse_start collapse_end)"

definition IPv6_to_string :: "IPv6 \<Rightarrow> string" where
  "IPv6_to_string a = collapse (segmentize a)"

text \<open>
  \<^verbatim>\<open>IPv6::parse\<close>. The loop is \<^verbatim>\<open>IPv6_parse_loop\<close>: \<^verbatim>\<open>first\<close> and \<^verbatim>\<open>second\<close> are the vectors
  \<^verbatim>\<open>segments_first\<close> and \<^verbatim>\<open>segments_second\<close>, \<^verbatim>\<open>in_second\<close> says that \<^verbatim>\<open>segments\<close> points to the
  second, and \<^verbatim>\<open>seg\<close> holds the characters from \<^verbatim>\<open>segment_start\<close> to \<^verbatim>\<open>iter\<close>. It returns \<^verbatim>\<open>None\<close> for
  a \<^verbatim>\<open>throw\<close>, and otherwise the state at the end of the loop with the flag \<^verbatim>\<open>IPv4_embedded\<close>; when
  the flag is set \<^verbatim>\<open>seg\<close> is the text from \<^verbatim>\<open>segment_start\<close> to \<^verbatim>\<open>end\<close>. \<^verbatim>\<open>place_first\<close> and
  \<^verbatim>\<open>place_second\<close> are the last two loops. The error of an embedded 32-bit address that does
  not parse is the one \<^verbatim>\<open>IPv4::parse\<close> throws. On the empty string the source reads outside the
  string; it is rejected here.
\<close>

definition is_hex_digit :: "char \<Rightarrow> bool" where
  "is_hex_digit c =
     (((of_char CHR ''a'' :: nat) \<le> of_char c \<and> of_char c \<le> (of_char CHR ''f'' :: nat))
      \<or> ((of_char CHR ''A'' :: nat) \<le> of_char c \<and> of_char c \<le> (of_char CHR ''F'' :: nat))
      \<or> ((of_char CHR ''0'' :: nat) \<le> of_char c \<and> of_char c \<le> (of_char CHR ''9'' :: nat)))"

definition parse_segment :: "string \<Rightarrow> 16 word" where
  "parse_segment s = istream_hex s"

fun IPv6_parse_loop ::
  "string \<Rightarrow> 16 word list \<Rightarrow> 16 word list \<Rightarrow> bool \<Rightarrow> string
   \<Rightarrow> (16 word list \<times> 16 word list \<times> bool \<times> string \<times> bool) option" where
  "IPv6_parse_loop [] first second in_second seg = Some (first, second, in_second, seg, False)"
| "IPv6_parse_loop (c # rest) first second in_second seg =
     (if is_hex_digit c then IPv6_parse_loop rest first second in_second (seg @ [c])
      else if c = CHR '':'' then
        (if length seg > 4 then None
         else if length seg = 0 then
           (if in_second then None else IPv6_parse_loop rest first second True [])
         else if in_second then
           IPv6_parse_loop rest first (second @ [parse_segment seg]) in_second []
         else IPv6_parse_loop rest (first @ [parse_segment seg]) second in_second [])
      else if c = CHR ''.'' then Some (first, second, in_second, seg @ c # rest, True)
      else None)"

definition place_first :: "16 word list \<Rightarrow> IPv6 \<Rightarrow> IPv6" where
  "place_first segments_first a =
     fold (\<lambda>i a. if i < 4
                  then a\<lparr>network := network a OR push_bit ((3 - i) * 16) (ucast (segments_first ! i))\<rparr>
                  else a\<lparr>host := host a OR push_bit ((7 - i) * 16) (ucast (segments_first ! i))\<rparr>)
       [0 ..< length segments_first] a"

definition place_second :: "16 word list \<Rightarrow> IPv6 \<Rightarrow> IPv6" where
  "place_second segments_second a =
     fold (\<lambda>i a. if i < 4
                  then a\<lparr>host := host a OR push_bit (i * 16)
                                   (ucast (segments_second ! (length segments_second - i - 1)))\<rparr>
                  else a\<lparr>network := network a OR push_bit ((i - 4) * 16)
                                   (ucast (segments_second ! (length segments_second - i - 1)))\<rparr>)
       [0 ..< length segments_second] a"

definition IPv6_parse :: "string \<Rightarrow> error + IPv6" where
  "IPv6_parse text =
     (let invalid_format = MalformedAddress (''Invalid IPv6 format ('' @ text @ '')'') in
      case text of
        [] \<Rightarrow> Inl invalid_format
      | c # cs \<Rightarrow>
          if c = CHR '':'' \<and> (cs = [] \<or> hd cs \<noteq> CHR '':'') then Inl invalid_format
          else
            (case (if c = CHR '':'' then IPv6_parse_loop (tl cs) [] [] True []
                   else IPv6_parse_loop text [] [] False []) of
               None \<Rightarrow> Inl invalid_format
             | Some (first, second, in_second, seg, IPv4_embedded) \<Rightarrow>
                 if last text = CHR '':'' \<and> \<not> (in_second \<and> second = []) then Inl invalid_format
                 else
                   (case (if IPv4_embedded then
                            (case IPv4_parse seg of
                               Inl e \<Rightarrow> Inl e
                             | Inr embedded_part \<Rightarrow>
                                 Inr [ucast (drop_bit 16 embedded_part),
                                      ucast (embedded_part AND 0xffff)])
                          else if last text \<noteq> CHR '':'' then Inr [parse_segment seg]
                          else Inr []) of
                      Inl e \<Rightarrow> Inl e
                    | Inr pushed \<Rightarrow>
                        let first = (if in_second then first else first @ pushed);
                            second = (if in_second then second @ pushed else second)
                        in if \<not> in_second \<and> length first \<noteq> 8 then Inl invalid_format
                           else if in_second \<and> length first + length second \<ge> 8
                             then Inl invalid_format
                           else Inr (place_second second
                                      (place_first first \<lparr>network = 0, host = 0\<rparr>)))))"

section \<open>BgpCompare.cpp: comparison kernels\<close>

text \<open>
  The three subclasses of \<^verbatim>\<open>ComparisonKernel\<close>, with \<^verbatim>\<open>operator()\<close> and \<^verbatim>\<open>symetric()\<close>
  (the source's spelling). The counters are C++ \<^verbatim>\<open>int\<close>s.
\<close>

datatype ComparisonKernel = UnionKernel | IntersectionKernel | DifferenceKernel

fun kernel_apply :: "ComparisonKernel \<Rightarrow> int \<Rightarrow> int \<Rightarrow> bool" where
  "kernel_apply UnionKernel A B = (A > 0 \<or> B > 0)"
| "kernel_apply IntersectionKernel A B = (A > 0 \<and> B > 0)"
| "kernel_apply DifferenceKernel A B = (A = 0 \<and> B > 0)"

fun symetric :: "ComparisonKernel \<Rightarrow> bool" where
  "symetric UnionKernel = True"
| "symetric IntersectionKernel = True"
| "symetric DifferenceKernel = False"


section \<open>BgpCompare.cpp: the address class as a template parameter\<close>

text \<open>
  \<^verbatim>\<open>add\<close>, \<^verbatim>\<open>traverse\<close> and \<^verbatim>\<open>process\<close> are templates over the address class \<^verbatim>\<open>T\<close>. The model
  passes the members of \<^verbatim>\<open>T\<close> they use as a record of functions. \<^verbatim>\<open>nxt\<close> and \<^verbatim>\<open>previous\<close>
  are the calls \<^verbatim>\<open>next()\<close> and \<^verbatim>\<open>previous()\<close> with the default argument
  \<^verbatim>\<open>prefix = bit_length\<close>, for which the range check of both classes passes; \<^verbatim>\<open>T_default\<close> is
  the default constructor \<^verbatim>\<open>T()\<close>. \<^verbatim>\<open>operator==\<close> is equality in both classes.
\<close>

record 'a address_class =
  bit_length :: int
  network_zeros :: "'a \<Rightarrow> int \<Rightarrow> 'a"
  network_ones :: "'a \<Rightarrow> int \<Rightarrow> 'a"
  nxt :: "'a \<Rightarrow> 'a"
  previous :: "'a \<Rightarrow> 'a"
  op_less :: "'a \<Rightarrow> 'a \<Rightarrow> bool"
  op_less_eq :: "'a \<Rightarrow> 'a \<Rightarrow> bool"
  T_default :: 'a

definition IPv4_class :: "IPv4 address_class" where
  "IPv4_class =
     \<lparr>bit_length = IPv4_bit_length,
      network_zeros = IPv4_network_zeros,
      network_ones = IPv4_network_ones,
      nxt = (\<lambda>v. projr (IPv4_next v IPv4_bit_length)),
      previous = (\<lambda>v. projr (IPv4_previous v IPv4_bit_length)),
      op_less = IPv4_less,
      op_less_eq = IPv4_less_eq,
      T_default = 0\<rparr>"

definition IPv6_class :: "IPv6 address_class" where
  "IPv6_class =
     \<lparr>bit_length = IPv6_bit_length,
      network_zeros = IPv6_network_zeros,
      network_ones = IPv6_network_ones,
      nxt = (\<lambda>a. projr (IPv6_next a IPv6_bit_length)),
      previous = (\<lambda>a. projr (IPv6_previous a IPv6_bit_length)),
      op_less = IPv6_less,
      op_less_eq = IPv6_less_eq,
      T_default = \<lparr>network = 0, host = 0\<rparr>\<rparr>"

section \<open>BgpCompare.cpp: nodes, markers and the range decomposer\<close>

record 'a IPNode =
  ip :: 'a
  prefix :: int

datatype IPMarkerType = ipm_invalid | ipm_a_open | ipm_a_close | ipm_b_open | ipm_b_close

record 'a IPMarker =
  m_ip :: 'a
  m_type :: IPMarkerType

text \<open>
  \<^verbatim>\<open>add(start, stop, callback)\<close>. The result is the sequence of nodes the callback is invoked
  with, in order. The inner \<^verbatim>\<open>for\<close> loop looks for the first \<open>i\<close> in \<open>0 .. bit_length\<close> that
  passes the test; when it finds none it ends without changing \<^verbatim>\<open>start\<close> and the \<^verbatim>\<open>while\<close>
  loop runs again on the same state, so the function does not return (\<open>None\<close>).
\<close>

partial_function (option) add :: "'a address_class \<Rightarrow> 'a \<Rightarrow> 'a \<Rightarrow> 'a IPNode list option" where
  "add T start stop =
     (if op_less T start stop then
        (case List.find
                (\<lambda>i. network_zeros T start i = start
                      \<and> op_less_eq T (network_ones T start i) stop)
                [0 .. bit_length T] of
           None \<Rightarrow> add T start stop
         | Some i \<Rightarrow>
             if network_ones T start i = network_ones T start 0
             then Some [\<lparr>ip = start, prefix = i\<rparr>]
             else Option.bind (add T (nxt T (network_ones T start i)) stop)
                    (\<lambda>rest. Some (\<lparr>ip = start, prefix = i\<rparr> # rest)))
      else Some [])"

declare add.simps [code]


section \<open>BgpCompare.cpp: output adapters\<close>

text \<open>
  The adapters \<^verbatim>\<open>traverse\<close> is called with. An invocation of a callback is recorded as the
  pair of the adapter and the node it receives; \<^verbatim>\<open>SimpleAdapter\<close> prints the node,
  \<^verbatim>\<open>DiffAdapter\<close> prints it after its prefix string, \<^verbatim>\<open>EmptyOutputAdapter\<close> prints nothing and
  is the only adapter whose \<^verbatim>\<open>empty()\<close> is true.
\<close>

datatype OutputAdapter = EmptyOutputAdapter | SimpleAdapter | DiffAdapter string

fun adapter_empty :: "OutputAdapter \<Rightarrow> bool" where
  "adapter_empty EmptyOutputAdapter = True"
| "adapter_empty SimpleAdapter = False"
| "adapter_empty (DiffAdapter p) = False"

type_synonym 'a calls = "(OutputAdapter \<times> 'a IPNode) list"

section \<open>BgpCompare.cpp: the sweep\<close>

record 'a batch_data =
  count :: int
  inside :: bool
  start :: 'a
  callback :: OutputAdapter

definition batch_data_init :: "'a address_class \<Rightarrow> OutputAdapter \<Rightarrow> 'a batch_data" where
  "batch_data_init T cb =
     \<lparr>count = 0, inside = False, start = T_default T, callback = cb\<rparr>"

text \<open>The four counter updates at the head of the loop body.\<close>

definition count_markers ::
  "IPMarkerType \<Rightarrow> 'a batch_data \<Rightarrow> 'a batch_data \<Rightarrow> 'a batch_data \<times> 'a batch_data" where
  "count_markers t A B =
     (let A = (if t = ipm_a_open then A\<lparr>count := count A + 1\<rparr> else A);
          A = (if t = ipm_a_close then A\<lparr>count := count A - 1\<rparr> else A);
          B = (if t = ipm_b_open then B\<lparr>count := count B + 1\<rparr> else B);
          B = (if t = ipm_b_close then B\<lparr>count := count B - 1\<rparr> else B)
      in (A, B))"

text \<open>
  The lambda \<^verbatim>\<open>track\<close>. It changes its first argument only; the result is that argument
  after the call and the callback invocations made by \<^verbatim>\<open>add\<close>.
\<close>

definition track ::
  "'a address_class \<Rightarrow> ComparisonKernel \<Rightarrow> bool \<Rightarrow> 'a \<Rightarrow> 'a batch_data \<Rightarrow> 'a batch_data
   \<Rightarrow> ('a batch_data \<times> 'a calls) option" where
  "track T kern open iter_ip A' B' =
     (if kernel_apply kern (count A') (count B') then
        (if \<not> inside A' then
           Some (A'\<lparr>inside := True,
                     start := (if open then iter_ip else nxt T iter_ip)\<rparr>, [])
         else Some (A', []))
      else
        (if inside A' then
           Option.bind
             (add T (start A') (if open then previous T iter_ip else iter_ip))
             (\<lambda>nodes. Some (A'\<lparr>inside := False\<rparr>, map (Pair (callback A')) nodes))
         else Some (A', [])))"

text \<open>
  The loop of \<^verbatim>\<open>traverse\<close> over the markers from \<^verbatim>\<open>start\<close> to \<^verbatim>\<open>stop\<close>. A marker followed by
  one at the same address is counted and skipped (\<^verbatim>\<open>continue\<close>); otherwise \<^verbatim>\<open>track(A, B)\<close>
  runs, and \<^verbatim>\<open>track(B, A)\<close> when the second callback is not empty. The result is the state of
  both tracks at the end and the callback invocations in order.
\<close>

fun traverse_loop ::
  "'a address_class \<Rightarrow> ComparisonKernel \<Rightarrow> 'a IPMarker list \<Rightarrow> 'a batch_data \<Rightarrow> 'a batch_data
   \<Rightarrow> ('a batch_data \<times> 'a batch_data \<times> 'a calls) option" where
  "traverse_loop T kern [] A B = Some (A, B, [])"
| "traverse_loop T kern (m # rest) A B =
     (case count_markers (m_type m) A B of (A, B) \<Rightarrow>
        let open = (m_type m = ipm_a_open \<or> m_type m = ipm_b_open) in
        if rest \<noteq> [] \<and> m_ip (hd rest) = m_ip m then traverse_loop T kern rest A B
        else
          Option.bind (track T kern open (m_ip m) A B) (\<lambda>(A, out_a).
          Option.bind
            (if \<not> adapter_empty (callback B) then track T kern open (m_ip m) B A
             else Some (B, [])) (\<lambda>(B, out_b).
          Option.bind (traverse_loop T kern rest A B) (\<lambda>(A', B', out).
          Some (A', B', out_a @ out_b @ out)))))"

definition traverse ::
  "'a address_class \<Rightarrow> 'a IPMarker list \<Rightarrow> ComparisonKernel \<Rightarrow> OutputAdapter \<Rightarrow> OutputAdapter
   \<Rightarrow> 'a calls option" where
  "traverse T markers kern callback_a callback_b =
     map_option (\<lambda>(A, B, out). out)
       (traverse_loop T kern markers
          (batch_data_init T callback_a) (batch_data_init T callback_b))"

section \<open>BgpCompare.cpp: the pipeline\<close>

text \<open>
  \<^verbatim>\<open>InsertAdapter\<close> pushes the two markers of a node. \<^verbatim>\<open>read_markers\<close> is the marker vector
  after both calls of \<^verbatim>\<open>read_regexp\<close>, for the nodes \<open>file1\<close> and \<open>file2\<close> the regular
  expression yields on the two files (reading and matching lines are outside the model).
\<close>

definition InsertAdapter ::
  "'a address_class \<Rightarrow> IPMarkerType \<Rightarrow> IPMarkerType \<Rightarrow> 'a IPNode \<Rightarrow> 'a IPMarker list" where
  "InsertAdapter T start_type stop_type node =
     [\<lparr>m_ip = network_zeros T (ip node) (prefix node), m_type = start_type\<rparr>,
      \<lparr>m_ip = network_ones T (ip node) (prefix node), m_type = stop_type\<rparr>]"

definition read_markers :: "'a address_class \<Rightarrow> 'a IPNode list \<Rightarrow> 'a IPNode list \<Rightarrow> 'a IPMarker list" where
  "read_markers T file1 file2 =
     concat (map (InsertAdapter T ipm_a_open ipm_a_close) file1)
     @ concat (map (InsertAdapter T ipm_b_open ipm_b_close) file2)"

text \<open>
  \<^verbatim>\<open>std::sort\<close> with \<^verbatim>\<open>IPMarker::operator<\<close>, which compares addresses only. The order of
  markers at one address is not specified, so the model takes the sorted vector as given:
  \<open>std_sort T ms ms'\<close> holds when \<open>ms'\<close> is a rearrangement of \<open>ms\<close> in which no marker
  is below an earlier one.
\<close>

definition marker_less :: "'a address_class \<Rightarrow> 'a IPMarker \<Rightarrow> 'a IPMarker \<Rightarrow> bool" where
  "marker_less T a b = op_less T (m_ip a) (m_ip b)"

definition std_sort :: "'a address_class \<Rightarrow> 'a IPMarker list \<Rightarrow> 'a IPMarker list \<Rightarrow> bool" where
  "std_sort T ms ms' =
     (mset ms' = mset ms
      \<and> sorted_wrt (\<lambda>a b. \<not> marker_less T b a) ms')"

text \<open>\<^verbatim>\<open>process\<close>, from the sorted marker vector on.\<close>

definition process :: "'a address_class \<Rightarrow> 'a IPMarker list \<Rightarrow> ComparisonKernel \<Rightarrow> 'a calls option" where
  "process T markers kern =
     (if symetric kern then traverse T markers kern SimpleAdapter EmptyOutputAdapter
      else traverse T markers kern (DiffAdapter ''+'') (DiffAdapter ''-''))"


text \<open>
  All vectors \<^verbatim>\<open>std::sort\<close> may leave: the rearrangements of \<open>xs\<close> in which every element
  is related by \<open>R\<close> to all later ones.
\<close>

function sorted_perms :: "('a \<Rightarrow> 'a \<Rightarrow> bool) \<Rightarrow> 'a list \<Rightarrow> 'a list list" where
  "sorted_perms R xs =
     (if xs = [] then [[]]
      else concat (map (\<lambda>m. if (\<forall>y \<in> set (remove1 m xs). R m y)
                              then map ((#) m) (sorted_perms R (remove1 m xs)) else [])
                    (remdups xs)))"
  by pat_completeness auto
termination
  by (relation "measure (\<lambda>(R, xs). length xs)")
    (auto simp: length_remove1 intro: length_pos_if_in_set)

declare sorted_perms.simps [simp del]

section \<open>What the templates need of an address class\<close>

text \<open>
  \<open>class_ok T val\<close>: the members of \<open>T\<close> behave as arithmetic on the number \<open>val a\<close> of an
  address, an unsigned integer of \<open>bit_length T\<close> bits. Both address classes satisfy it
  (\<open>IPv4_class_ok\<close>, \<open>IPv6_class_ok\<close>).
\<close>

definition class_ok :: "'a address_class \<Rightarrow> ('a \<Rightarrow> nat) \<Rightarrow> bool" where
  "class_ok T val =
     (0 \<le> bit_length T \<and> inj val \<and> (\<forall>a. val a < 2 ^ nat (bit_length T))
      \<and> (\<forall>a b. op_less T a b = (val a < val b))
      \<and> (\<forall>a b. op_less_eq T a b = (val a \<le> val b))
      \<and> (\<forall>a p. 0 \<le> p \<longrightarrow> p \<le> bit_length T \<longrightarrow>
             val (network_zeros T a p) = val a - val a mod 2 ^ nat (bit_length T - p))
      \<and> (\<forall>a p. 0 \<le> p \<longrightarrow> p \<le> bit_length T \<longrightarrow>
             val (network_ones T a p)
             = val a - val a mod 2 ^ nat (bit_length T - p) + (2 ^ nat (bit_length T - p) - 1))
      \<and> (\<forall>a. val a + 1 < 2 ^ nat (bit_length T) \<longrightarrow> val (nxt T a) = val a + 1)
      \<and> (\<forall>a. 0 < val a \<longrightarrow> val (previous T a) = val a - 1))"

section \<open>Blocks as address ranges\<close>

text \<open>
  The range a node stands for, from the members of the address class: \<open>block_lo\<close> is its
  floor and \<open>block_hi\<close> its ceiling, \<open>aligned\<close> says the address is its own floor at a prefix
  within the width, \<open>block_range\<close> is the closed interval between the two. Two nodes are
  \<open>mergeable\<close> when one aligned node covers exactly the addresses of both.
\<close>

definition block_lo :: "'a address_class \<Rightarrow> 'a IPNode \<Rightarrow> 'a" where
  "block_lo T n = network_zeros T (ip n) (prefix n)"

definition block_hi :: "'a address_class \<Rightarrow> 'a IPNode \<Rightarrow> 'a" where
  "block_hi T n = network_ones T (ip n) (prefix n)"

definition aligned :: "'a address_class \<Rightarrow> 'a IPNode \<Rightarrow> bool" where
  "aligned T n = (0 \<le> prefix n \<and> prefix n \<le> bit_length T \<and> block_lo T n = ip n)"

definition block_range :: "'a address_class \<Rightarrow> 'a IPNode \<Rightarrow> 'a set" where
  "block_range T n = {x. op_less_eq T (block_lo T n) x \<and> op_less_eq T x (block_hi T n)}"

definition mergeable :: "'a address_class \<Rightarrow> 'a IPNode \<Rightarrow> 'a IPNode \<Rightarrow> bool" where
  "mergeable T n1 n2 = (\<exists>n. aligned T n \<and> block_range T n = block_range T n1 \<union> block_range T n2)"

definition no_adjacent_mergeable :: "'a address_class \<Rightarrow> 'a IPNode list \<Rightarrow> bool" where
  "no_adjacent_mergeable T bs = (\<forall>i. Suc i < length bs \<longrightarrow> \<not> mergeable T (bs ! i) (bs ! Suc i))"

text \<open>
  The shape of what \<^verbatim>\<open>add\<close> emits, over the numbers \<open>val\<close> of the addresses: from the cursor
  \<open>c\<close> each node starts at the cursor, is aligned, ends at or below the stop \<open>e\<close>, no smaller
  prefix would have passed the test of the inner loop, and the next node starts one above its
  end; after the last node the cursor has reached \<open>e\<close>.
\<close>

fun chain :: "'a address_class \<Rightarrow> ('a \<Rightarrow> nat) \<Rightarrow> nat \<Rightarrow> nat \<Rightarrow> 'a IPNode list \<Rightarrow> bool" where
  "chain T val c e [] = (e \<le> c)"
| "chain T val c e (n # ns) =
     (val (ip n) = c \<and> aligned T n \<and> val (block_hi T n) \<le> e
      \<and> (\<forall>j. 0 \<le> j \<and> j < prefix n \<longrightarrow>
             \<not> (network_zeros T (ip n) j = ip n \<and> val (network_ones T (ip n) j) \<le> e))
      \<and> chain T val (val (block_hi T n) + 1) e ns)"

section \<open>The calls of \<^verbatim>\<open>add\<close> a sweep makes\<close>

text \<open>
  A flush is one call \<^verbatim>\<open>add(A_.start, boundary, A_.callback)\<close> inside \<^verbatim>\<open>track\<close>, recorded as
  callback, start and stop. \<open>track_range\<close> and \<open>track_state\<close> split \<^verbatim>\<open>track\<close> into the call it
  makes and the state it leaves; \<open>traverse_flushes\<close> walks the markers as \<^verbatim>\<open>traverse\<close> does
  and lists the flushes in order. \<open>traverse_loop_flushes\<close> proves that the output of the sweep
  is the output of these calls, one after the other.
\<close>

type_synonym 'a flush = "OutputAdapter \<times> 'a \<times> 'a"

definition flush_blocks :: "'a address_class \<Rightarrow> 'a flush \<Rightarrow> 'a IPNode list" where
  "flush_blocks T f = (case f of (cb, s, e) \<Rightarrow> (case add T s e of Some bs \<Rightarrow> bs | None \<Rightarrow> []))"

definition flush_calls :: "'a address_class \<Rightarrow> 'a flush \<Rightarrow> 'a calls" where
  "flush_calls T f = map (Pair (fst f)) (flush_blocks T f)"

definition track_range ::
  "'a address_class \<Rightarrow> ComparisonKernel \<Rightarrow> bool \<Rightarrow> 'a \<Rightarrow> 'a batch_data \<Rightarrow> 'a batch_data
   \<Rightarrow> 'a flush list" where
  "track_range T kern open iter_ip A' B' =
     (if \<not> kernel_apply kern (count A') (count B') \<and> inside A'
      then [(callback A', start A', if open then previous T iter_ip else iter_ip)]
      else [])"

definition track_state ::
  "'a address_class \<Rightarrow> ComparisonKernel \<Rightarrow> bool \<Rightarrow> 'a \<Rightarrow> 'a batch_data \<Rightarrow> 'a batch_data
   \<Rightarrow> 'a batch_data" where
  "track_state T kern open iter_ip A' B' =
     (if kernel_apply kern (count A') (count B') then
        (if \<not> inside A' then
           A'\<lparr>inside := True, start := (if open then iter_ip else nxt T iter_ip)\<rparr>
         else A')
      else (if inside A' then A'\<lparr>inside := False\<rparr> else A'))"

fun traverse_flushes ::
  "'a address_class \<Rightarrow> ComparisonKernel \<Rightarrow> 'a IPMarker list \<Rightarrow> 'a batch_data \<Rightarrow> 'a batch_data
   \<Rightarrow> 'a flush list" where
  "traverse_flushes T kern [] A B = []"
| "traverse_flushes T kern (m # rest) A B =
     (case count_markers (m_type m) A B of (A, B) \<Rightarrow>
        let open = (m_type m = ipm_a_open \<or> m_type m = ipm_b_open) in
        if rest \<noteq> [] \<and> m_ip (hd rest) = m_ip m then traverse_flushes T kern rest A B
        else
          let second = (\<not> adapter_empty (callback B));
              flush_a = track_range T kern open (m_ip m) A B;
              A = track_state T kern open (m_ip m) A B;
              flush_b = (if second then track_range T kern open (m_ip m) B A else []);
              B = (if second then track_state T kern open (m_ip m) B A else B)
          in flush_a @ flush_b @ traverse_flushes T kern rest A B)"

definition process_flushes ::
  "'a address_class \<Rightarrow> 'a IPMarker list \<Rightarrow> ComparisonKernel \<Rightarrow> 'a flush list" where
  "process_flushes T markers kern =
     (if symetric kern then
        traverse_flushes T kern markers
          (batch_data_init T SimpleAdapter) (batch_data_init T EmptyOutputAdapter)
      else
        traverse_flushes T kern markers
          (batch_data_init T (DiffAdapter ''+'')) (batch_data_init T (DiffAdapter ''-'')))"

section \<open>The points where a sweep evaluates the kernel\<close>

text \<open>
  \<open>track_points\<close> walks the markers as \<^verbatim>\<open>traverse\<close> does and records, each time the loop
  body reaches \<^verbatim>\<open>track\<close>, the address \<^verbatim>\<open>iter->ip\<close>, both counters and the flag \<^verbatim>\<open>open\<close>.
  \<open>run_points\<close> runs the calls of \<^verbatim>\<open>track\<close> at such points; \<open>traverse_loop_points\<close> proves
  that the sweep is \<open>run_points\<close> on its \<open>track_points\<close>.
\<close>

definition is_open :: "IPMarkerType \<Rightarrow> bool" where
  "is_open t = (t = ipm_a_open \<or> t = ipm_b_open)"

definition delta_a :: "IPMarkerType \<Rightarrow> int" where
  "delta_a t = (if t = ipm_a_open then 1 else if t = ipm_a_close then - 1 else 0)"

definition delta_b :: "IPMarkerType \<Rightarrow> int" where
  "delta_b t = (if t = ipm_b_open then 1 else if t = ipm_b_close then - 1 else 0)"

type_synonym 'a track_point = "'a \<times> int \<times> int \<times> bool"

fun track_points :: "'a IPMarker list \<Rightarrow> 'a batch_data \<Rightarrow> 'a batch_data \<Rightarrow> 'a track_point list" where
  "track_points [] A B = []"
| "track_points (m # rest) A B =
     (case count_markers (m_type m) A B of (A, B) \<Rightarrow>
        let open = (m_type m = ipm_a_open \<or> m_type m = ipm_b_open) in
        if rest \<noteq> [] \<and> m_ip (hd rest) = m_ip m then track_points rest A B
        else (m_ip m, count A, count B, open) # track_points rest A B)"

fun run_points ::
  "'a address_class \<Rightarrow> ComparisonKernel \<Rightarrow> 'a track_point list \<Rightarrow> 'a batch_data \<Rightarrow> 'a batch_data
   \<Rightarrow> ('a batch_data \<times> 'a batch_data \<times> 'a calls) option" where
  "run_points T kern [] A B = Some (A, B, [])"
| "run_points T kern (p # ps) A B =
     (case p of (iter_ip, count_a, count_b, open) \<Rightarrow>
        let A = A\<lparr>count := count_a\<rparr>; B = B\<lparr>count := count_b\<rparr> in
        Option.bind (track T kern open iter_ip A B) (\<lambda>(A, out_a).
        Option.bind
          (if \<not> adapter_empty (callback B) then track T kern open iter_ip B A
           else Some (B, [])) (\<lambda>(B, out_b).
        Option.bind (run_points T kern ps A B) (\<lambda>(A', B', out).
        Some (A', B', out_a @ out_b @ out)))))"

definition calls_of :: "('a batch_data \<times> 'a batch_data \<times> 'a calls) option \<Rightarrow> 'a calls option" where
  "calls_of r = map_option (\<lambda>(A, B, out). out) r"

text \<open>
  The reading of the specification: a group is a maximal run of markers at one address, a
  group gives one evaluation of the kernel, at the counters after all deltas of the group,
  with a flag computed from the group. \<open>last_is_open\<close> is the flag the code computes,
  \<open>some_is_open\<close> the flag the specification describes.
\<close>

fun groups :: "'a IPMarker list \<Rightarrow> 'a IPMarker list list" where
  "groups [] = []"
| "groups (m # rest) =
     (case groups rest of
        [] \<Rightarrow> [[m]]
      | g # gs \<Rightarrow> if m_ip (hd g) = m_ip m then (m # g) # gs else [m] # g # gs)"

fun group_points ::
  "('a IPMarker list \<Rightarrow> bool) \<Rightarrow> 'a IPMarker list list \<Rightarrow> int \<Rightarrow> int \<Rightarrow> 'a track_point list" where
  "group_points flag [] count_a count_b = []"
| "group_points flag (g # gs) count_a count_b =
     (let count_a = count_a + sum_list (map (delta_a \<circ> m_type) g);
          count_b = count_b + sum_list (map (delta_b \<circ> m_type) g)
      in (m_ip (hd g), count_a, count_b, flag g) # group_points flag gs count_a count_b)"

definition last_is_open :: "'a IPMarker list \<Rightarrow> bool" where
  "last_is_open g = is_open (m_type (last g))"

definition some_is_open :: "'a IPMarker list \<Rightarrow> bool" where
  "some_is_open g = (\<exists>m \<in> set g. is_open (m_type m))"

definition sweep_by_groups ::
  "'a address_class \<Rightarrow> ComparisonKernel \<Rightarrow> 'a IPMarker list \<Rightarrow> 'a batch_data \<Rightarrow> 'a batch_data
   \<Rightarrow> bool" where
  "sweep_by_groups T kern ms A B =
     (concat (groups ms) = ms
      \<and> (\<forall>g \<in> set (groups ms). g \<noteq> [] \<and> (\<forall>m \<in> set g. m_ip m = m_ip (hd g)))
      \<and> distinct (map (\<lambda>g. m_ip (hd g)) (groups ms))
      \<and> track_points ms A B = group_points last_is_open (groups ms) (count A) (count B)
      \<and> calls_of (traverse_loop T kern ms A B)
          = calls_of (run_points T kern (track_points ms A B) A B))"

section \<open>The text of an address, as the specification describes it\<close>

text \<open>
  The groups of a 128-bit address are the eight elements of \<^verbatim>\<open>segmentize\<close>. \<^verbatim>\<open>zero_run segs i j\<close>
  says that the groups at the indices \<^verbatim>\<open>i\<close> to \<^verbatim>\<open>j - 1\<close> are all zero, and \<^verbatim>\<open>longest_first_run\<close> that
  no zero run is longer and no zero run of the same length starts earlier; \<^verbatim>\<open>no_long_run\<close> says
  that no zero run has two groups or more. \<^verbatim>\<open>hex_groups\<close> prints each group as the stream
  library does and \<^verbatim>\<open>join_colon\<close> puts a colon between two neighbours.
\<close>

definition zero_run :: "16 word list \<Rightarrow> nat \<Rightarrow> nat \<Rightarrow> bool" where
  "zero_run segs i j = (i < j \<and> j \<le> length segs \<and> (\<forall>k \<in> {i ..< j}. segs ! k = 0))"

definition longest_first_run :: "16 word list \<Rightarrow> nat \<Rightarrow> nat \<Rightarrow> bool" where
  "longest_first_run segs i j =
     (zero_run segs i j
      \<and> (\<forall>j' \<in> {0 .. length segs}. \<forall>i' \<in> {0 ..< j'}.
            zero_run segs i' j' \<longrightarrow> j' - i' < j - i \<or> (j' - i' = j - i \<and> i \<le> i')))"

definition no_long_run :: "16 word list \<Rightarrow> bool" where
  "no_long_run segs =
     (\<forall>j \<in> {0 .. length segs}. \<forall>i \<in> {0 ..< j}. zero_run segs i j \<longrightarrow> j - i < 2)"

fun join_colon :: "string list \<Rightarrow> string" where
  "join_colon [] = []"
| "join_colon [x] = x"
| "join_colon (x # y # ys) = x @ '':'' @ join_colon (y # ys)"

definition hex_groups :: "16 word list \<Rightarrow> string list" where
  "hex_groups segs = map (\<lambda>w. ostream_hex (unat w)) segs"

abbreviation hx :: "16 word \<Rightarrow> string" where
  "hx w \<equiv> ostream_hex (unat w)"

text \<open>The number a string of digits stands for, in base 16 and, continuing from \<^verbatim>\<open>acc\<close>, in base 10.\<close>

definition hex_value :: "string \<Rightarrow> nat" where
  "hex_value s = foldl (\<lambda>a c. 16 * a + hex_digit_value c) 0 s"

definition dec_value :: "int \<Rightarrow> string \<Rightarrow> int" where
  "dec_value acc ds = foldl (\<lambda>a c. a * 10 + (int (of_char c) - int (of_char CHR ''0''))) acc ds"

text \<open>
  The invariant of the first loop of \<^verbatim>\<open>collapse\<close>. \<^verbatim>\<open>best_upto segs m cs ce\<close>: the range
  \<^verbatim>\<open>(cs, ce)\<close> is the first of the longest zero runs that end at or before \<^verbatim>\<open>m\<close>, or
  \<^verbatim>\<open>(end, end)\<close> when there is none. \<^verbatim>\<open>scan_step\<close> is one iteration of the loop, and \<^verbatim>\<open>scan_inv\<close>
  holds before the iteration at index \<^verbatim>\<open>i\<close>: an open run starts at \<^verbatim>\<open>collapse\<close> and reaches \<^verbatim>\<open>i\<close>,
  and the best range is known up to where that run starts.
\<close>

definition best_upto :: "16 word list \<Rightarrow> nat \<Rightarrow> nat \<Rightarrow> nat \<Rightarrow> bool" where
  "best_upto segs m cs ce =
     (((cs = length segs \<and> ce = length segs) \<or> (zero_run segs cs ce \<and> ce \<le> m))
      \<and> (\<forall>i' j'. zero_run segs i' j' \<and> j' \<le> m \<longrightarrow>
             j' - i' < ce - cs \<or> (j' - i' = ce - cs \<and> cs \<le> i')))"

definition scan_step :: "16 word \<Rightarrow> nat \<Rightarrow> nat \<Rightarrow> nat \<times> nat \<times> nat \<Rightarrow> nat \<times> nat \<times> nat" where
  "scan_step x n i st = (case st of (c, cs, ce) \<Rightarrow>
     (if x = 0 then (if c = n then i else c, cs, ce)
      else if c \<noteq> n then
        (if int i - int c > int ce - int cs then (n, c, i) else (n, cs, ce))
      else (c, cs, ce)))"

definition scan_inv :: "16 word list \<Rightarrow> nat \<Rightarrow> nat \<times> nat \<times> nat \<Rightarrow> bool" where
  "scan_inv segs i st = (case st of (c, cs, ce) \<Rightarrow>
     i \<le> length segs
     \<and> (c = length segs \<longrightarrow> i = 0 \<or> segs ! (i - 1) \<noteq> 0)
     \<and> (c \<noteq> length segs \<longrightarrow>
           c < i \<and> (\<forall>k \<in> {c ..< i}. segs ! k = 0) \<and> (c = 0 \<or> segs ! (c - 1) \<noteq> 0))
     \<and> best_upto segs (if c = length segs then i else c) cs ce)"

text \<open>
  The group of an address at an index, and one iteration of each of the two loops that place
  the parsed groups.
\<close>

definition seg64 :: "64 word \<Rightarrow> nat \<Rightarrow> 16 word" where
  "seg64 w j = ucast (drop_bit (48 - j * 16) w AND 0xffff)"

definition seg_at :: "IPv6 \<Rightarrow> nat \<Rightarrow> 16 word" where
  "seg_at a p = (if p < 4 then seg64 (network a) p else seg64 (host a) (p - 4))"

definition first_step :: "nat \<Rightarrow> 16 word \<Rightarrow> IPv6 \<Rightarrow> IPv6" where
  "first_step i x a =
     (if i < 4 then a\<lparr>network := network a OR push_bit ((3 - i) * 16) (ucast x)\<rparr>
      else a\<lparr>host := host a OR push_bit ((7 - i) * 16) (ucast x)\<rparr>)"

definition second_step :: "nat \<Rightarrow> 16 word \<Rightarrow> IPv6 \<Rightarrow> IPv6" where
  "second_step i x a =
     (if i < 4 then a\<lparr>host := host a OR push_bit (i * 16) (ucast x)\<rparr>
      else a\<lparr>network := network a OR push_bit ((i - 4) * 16) (ucast x)\<rparr>)"

section \<open>Concrete inputs\<close>

text \<open>Scenario 1: \<open>A = {10.0.0.0/24}\<close> and \<open>B = {10.0.0.0/25}\<close>.\<close>

definition scenario1_A :: "IPv4 IPNode list" where
  "scenario1_A = [\<lparr>ip = 0x0a000000, prefix = 24\<rparr>]"

definition scenario1_B :: "IPv4 IPNode list" where
  "scenario1_B = [\<lparr>ip = 0x0a000000, prefix = 25\<rparr>]"

definition scenario1_sorted :: "IPv4 IPMarker list" where
  "scenario1_sorted =
     [\<lparr>m_ip = 0x0a000000, m_type = ipm_a_open\<rparr>, \<lparr>m_ip = 0x0a000000, m_type = ipm_b_open\<rparr>,
      \<lparr>m_ip = 0x0a00007f, m_type = ipm_b_close\<rparr>, \<lparr>m_ip = 0x0a0000ff, m_type = ipm_a_close\<rparr>]"

definition scenario1_sorted' :: "IPv4 IPMarker list" where
  "scenario1_sorted' =
     [\<lparr>m_ip = 0x0a000000, m_type = ipm_b_open\<rparr>, \<lparr>m_ip = 0x0a000000, m_type = ipm_a_open\<rparr>,
      \<lparr>m_ip = 0x0a00007f, m_type = ipm_b_close\<rparr>, \<lparr>m_ip = 0x0a0000ff, m_type = ipm_a_close\<rparr>]"


text \<open>Two touching blocks: \<open>A = {10.0.0.0/25}\<close> and \<open>B = {10.0.0.128/25}\<close>.\<close>

definition touching_A :: "IPv4 IPNode list" where
  "touching_A = [\<lparr>ip = 0x0a000000, prefix = 25\<rparr>]"

definition touching_B :: "IPv4 IPNode list" where
  "touching_B = [\<lparr>ip = 0x0a000080, prefix = 25\<rparr>]"

definition touching_sorted :: "IPv4 IPMarker list" where
  "touching_sorted =
     [\<lparr>m_ip = 0x0a000000, m_type = ipm_a_open\<rparr>, \<lparr>m_ip = 0x0a00007f, m_type = ipm_a_close\<rparr>,
      \<lparr>m_ip = 0x0a000080, m_type = ipm_b_open\<rparr>, \<lparr>m_ip = 0x0a0000ff, m_type = ipm_b_close\<rparr>]"

text \<open>A block inside another at its start: \<open>A = {10.0.0.0/24}\<close> and \<open>B = {10.0.0.0/26}\<close>.\<close>

definition nested_A :: "IPv4 IPNode list" where
  "nested_A = [\<lparr>ip = 0x0a000000, prefix = 24\<rparr>]"

definition nested_B :: "IPv4 IPNode list" where
  "nested_B = [\<lparr>ip = 0x0a000000, prefix = 26\<rparr>]"

definition nested_sorted :: "IPv4 IPMarker list" where
  "nested_sorted =
     [\<lparr>m_ip = 0x0a000000, m_type = ipm_a_open\<rparr>, \<lparr>m_ip = 0x0a000000, m_type = ipm_b_open\<rparr>,
      \<lparr>m_ip = 0x0a00003f, m_type = ipm_b_close\<rparr>, \<lparr>m_ip = 0x0a0000ff, m_type = ipm_a_close\<rparr>]"

text \<open>
  The single one-address block \<open>A = {10.0.1.0/32}\<close>, with \<open>B\<close> empty: both markers are at
  \<open>10.0.1.0\<close>, and \<^verbatim>\<open>std::sort\<close>, which is not stable, may leave them in either order.
\<close>

definition lone_A :: "IPv4 IPNode list" where
  "lone_A = [\<lparr>ip = 0x0a000100, prefix = 32\<rparr>]"

definition lone_open_close :: "IPv4 IPMarker list" where
  "lone_open_close =
     [\<lparr>m_ip = 0x0a000100, m_type = ipm_a_open\<rparr>, \<lparr>m_ip = 0x0a000100, m_type = ipm_a_close\<rparr>]"

definition lone_close_open :: "IPv4 IPMarker list" where
  "lone_close_open =
     [\<lparr>m_ip = 0x0a000100, m_type = ipm_a_close\<rparr>, \<lparr>m_ip = 0x0a000100, m_type = ipm_a_open\<rparr>]"

text \<open>
  \<open>A = {0.0.0.0/31}\<close> and \<open>B = {0.0.0.0/32}\<close>: three markers are at \<open>0.0.0.0\<close>. Two of the orders
  \<^verbatim>\<open>std::sort\<close> may leave them in: one where the last marker at \<open>0.0.0.0\<close> closes \<open>B\<close>, one where
  it opens \<open>A\<close>.
\<close>

definition tie_A :: "IPv4 IPNode list" where
  "tie_A = [\<lparr>ip = 0, prefix = 31\<rparr>]"

definition tie_B :: "IPv4 IPNode list" where
  "tie_B = [\<lparr>ip = 0, prefix = 32\<rparr>]"

definition tie_close_last :: "IPv4 IPMarker list" where
  "tie_close_last =
     [\<lparr>m_ip = 0, m_type = ipm_a_open\<rparr>, \<lparr>m_ip = 0, m_type = ipm_b_open\<rparr>,
      \<lparr>m_ip = 0, m_type = ipm_b_close\<rparr>, \<lparr>m_ip = 1, m_type = ipm_a_close\<rparr>]"

definition tie_open_last :: "IPv4 IPMarker list" where
  "tie_open_last =
     [\<lparr>m_ip = 0, m_type = ipm_b_open\<rparr>, \<lparr>m_ip = 0, m_type = ipm_b_close\<rparr>,
      \<lparr>m_ip = 0, m_type = ipm_a_open\<rparr>, \<lparr>m_ip = 1, m_type = ipm_a_close\<rparr>]"

text \<open>The markers of the 128-bit block \<open>::/112\<close>.\<close>

definition v6_sorted :: "IPv6 IPMarker list" where
  "v6_sorted =
     [\<lparr>m_ip = \<lparr>network = 0, host = 0\<rparr>, m_type = ipm_a_open\<rparr>,
      \<lparr>m_ip = \<lparr>network = 0, host = 0xffff\<rparr>, m_type = ipm_a_close\<rparr>]"

text \<open>
  Addresses of the 128-bit class: \<^verbatim>\<open>2001:db8:0:0:1:0:0:1\<close>, with two zero runs of two groups;
  \<^verbatim>\<open>1:0:2:3:4:5:6:7\<close>, with one zero group alone; the all-zero and the all-ones address.
\<close>

definition v6_first_run :: IPv6 where
  "v6_first_run = \<lparr>network = 0x20010db800000000, host = 0x0001000000000001\<rparr>"

definition v6_isolated_zero :: IPv6 where
  "v6_isolated_zero = \<lparr>network = 0x0001000000020003, host = 0x0004000500060007\<rparr>"

definition v6_zero :: IPv6 where
  "v6_zero = \<lparr>network = 0, host = 0\<rparr>"

definition v6_ones :: IPv6 where
  "v6_ones = \<lparr>network = 0xffffffffffffffff, host = 0xffffffffffffffff\<rparr>"

section \<open>Kernels\<close>

text \<open>
  C7. For all counts \<open>countA \<ge> 0\<close> and \<open>countB \<ge> 0\<close>: the union kernel holds iff
  \<open>countA > 0\<close> or \<open>countB > 0\<close>, the intersection kernel iff both are positive, the difference
  kernel iff \<open>countA = 0\<close> and \<open>countB > 0\<close>; union and intersection report themselves symmetric,
  difference does not.
\<close>

theorem kernels_spec:
  assumes "0 \<le> countA" and "0 \<le> countB"
  shows "kernel_apply UnionKernel countA countB = (countA > 0 \<or> countB > 0)
    \<and> kernel_apply IntersectionKernel countA countB = (countA > 0 \<and> countB > 0)
    \<and> kernel_apply DifferenceKernel countA countB = (countA = 0 \<and> countB > 0)
    \<and> symetric UnionKernel \<and> symetric IntersectionKernel
    \<and> \<not> symetric DifferenceKernel"
  by simp

theorem kernels_spec_witness:
  "kernel_apply UnionKernel 0 2 \<and> \<not> kernel_apply IntersectionKernel 0 2
   \<and> kernel_apply DifferenceKernel 0 2 \<and> \<not> kernel_apply DifferenceKernel 1 2
   \<and> \<not> symetric DifferenceKernel"
  using kernels_spec [of 0 2] kernels_spec [of 1 2] by simp


section \<open>Address arithmetic\<close>

lemma w32_ones: "(0xffffffff :: 32 word) = - 1"
  by simp

lemma w64_ones: "(0xffffffffffffffff :: 64 word) = - 1"
  by simp

lemma IPv4_zeros_bit:
  assumes "0 \<le> p" "p \<le> 32"
  shows "bit (IPv4_network_zeros v p) n = (bit v n \<and> nat (32 - p) \<le> n)"
  using assms unfolding IPv4_network_zeros_def w32_ones
  by (auto simp: bit_simps dest: bit_imp_le_length)

lemma IPv4_ones_bit:
  assumes "0 \<le> p" "p \<le> 32"
  shows "bit (IPv4_network_ones v p) n = (n < 32 \<and> (bit v n \<or> n < nat (32 - p)))"
  using assms unfolding IPv4_network_ones_def w32_ones
  by (auto simp: bit_simps dest: bit_imp_le_length)

lemma IPv6_value_bit:
  "bit (IPv6_value a) n = (if n < 64 then bit (host a) n else bit (network a) (n - 64))"
  unfolding IPv6_value_def
  by (auto simp: bit_word_cat_iff dest: bit_imp_le_length)

lemma IPv6_zeros_bit:
  assumes "0 \<le> p" "p \<le> 128"
  shows "bit (IPv6_value (IPv6_network_zeros a p)) n
         = (bit (IPv6_value a) n \<and> nat (128 - p) \<le> n)"
  using assms unfolding IPv6_network_zeros_def w64_ones IPv6_value_bit
  by (auto simp: bit_simps dest: bit_imp_le_length)

lemma IPv6_ones_bit:
  assumes "0 \<le> p" "p \<le> 128"
  shows "bit (IPv6_value (IPv6_network_ones a p)) n
         = (n < 128 \<and> (bit (IPv6_value a) n \<or> n < nat (128 - p)))"
  using assms unfolding IPv6_network_ones_def w64_ones IPv6_value_bit
  by (auto simp: bit_simps dest: bit_imp_le_length)

text \<open>
  C9. For an address of either width \<open>W\<close> and a prefix \<open>p\<close> in \<open>[0, W]\<close>, \<^verbatim>\<open>network_zeros\<close>
  (floor) clears exactly the low \<open>W - p\<close> bits and \<^verbatim>\<open>network_ones\<close> (ceiling) sets exactly
  those bits; at prefix 0 the results are the all-zero and the all-ones value, which the
  functions return from their first branch, before any shift.
\<close>

theorem floor_ceiling_bits:
  assumes "0 \<le> p4" "p4 \<le> IPv4_bit_length" "0 \<le> p6" "p6 \<le> IPv6_bit_length"
  shows "(\<forall>n. bit (IPv4_network_zeros v4 p4) n = (bit v4 n \<and> nat (32 - p4) \<le> n))
       \<and> (\<forall>n. bit (IPv4_network_ones v4 p4) n = (n < 32 \<and> (bit v4 n \<or> n < nat (32 - p4))))
       \<and> (\<forall>n. bit (IPv6_value (IPv6_network_zeros v6 p6)) n
                = (bit (IPv6_value v6) n \<and> nat (128 - p6) \<le> n))
       \<and> (\<forall>n. bit (IPv6_value (IPv6_network_ones v6 p6)) n
                = (n < 128 \<and> (bit (IPv6_value v6) n \<or> n < nat (128 - p6))))
       \<and> IPv4_network_zeros v4 0 = 0
       \<and> IPv4_network_ones v4 0 = - 1
       \<and> IPv6_network_zeros v6 0 = \<lparr>network = 0, host = 0\<rparr>
       \<and> IPv6_network_ones v6 0 = \<lparr>network = - 1, host = - 1\<rparr>"
proof -
  have p4: "p4 \<le> 32" and p6: "p6 \<le> 128"
    using assms by (simp_all add: IPv4_bit_length_def IPv6_bit_length_def)
  have "IPv4_network_zeros v4 0 = 0" "IPv4_network_ones v4 0 = - 1"
    by (simp_all add: IPv4_network_zeros_def IPv4_network_ones_def)
  moreover have "IPv6_network_zeros v6 0 = \<lparr>network = 0, host = 0\<rparr>"
    "IPv6_network_ones v6 0 = \<lparr>network = - 1, host = - 1\<rparr>"
    by (simp_all add: IPv6_network_zeros_def IPv6_network_ones_def)
  ultimately show ?thesis
    using IPv4_zeros_bit [OF assms(1) p4] IPv4_ones_bit [OF assms(1) p4]
      IPv6_zeros_bit [OF assms(3) p6] IPv6_ones_bit [OF assms(3) p6]
    by simp
qed

theorem floor_ceiling_bits_witness:
  "IPv4_network_zeros 0x0a0000ff 24 = 0x0a000000
   \<and> IPv4_network_ones 0x0a000000 24 = 0x0a0000ff
   \<and> IPv6_network_zeros \<lparr>network = 0x20010db8ffffffff, host = 5\<rparr> 32
       = \<lparr>network = 0x20010db800000000, host = 0\<rparr>
   \<and> IPv6_network_ones \<lparr>network = 0x20010db800000000, host = 0\<rparr> 32
       = \<lparr>network = 0x20010db8ffffffff, host = - 1\<rparr>
   \<and> (\<forall>n. bit (IPv4_network_zeros 0x0a0000ff 24) n = (bit (0x0a0000ff :: 32 word) n \<and> 8 \<le> n))"
proof -
  have "\<forall>n. bit (IPv4_network_zeros 0x0a0000ff 24) n
            = (bit (0x0a0000ff :: 32 word) n \<and> nat (32 - 24) \<le> n)"
    using floor_ceiling_bits [of 24 32 "0x0a0000ff" "\<lparr>network = 0, host = 0\<rparr>"]
    by (simp add: IPv4_bit_length_def IPv6_bit_length_def)
  then show ?thesis
    by (simp add: IPv4_network_zeros_def IPv4_network_ones_def
        IPv6_network_zeros_def IPv6_network_ones_def)
qed

section \<open>Both address classes as unsigned integers\<close>

lemma and_not_mask_push_drop: "(w :: 'a::len word) AND NOT (mask k) = push_bit k (drop_bit k w)"
  by (rule bit_word_eqI) (auto simp: bit_simps)

lemma nat_floor_less:
  fixes n :: nat
  assumes "k \<le> L" "n < 2 ^ L"
  shows "n - n mod 2 ^ k + (2 ^ k - 1) < 2 ^ L"
proof -
  obtain d where L: "L = k + d" using assms(1) by (auto simp: le_iff_add)
  have "n div 2 ^ k < 2 ^ d"
    using assms(2) unfolding L by (simp add: less_mult_imp_div_less power_add mult.commute)
  then have "n div 2 ^ k + 1 \<le> 2 ^ d" by simp
  then have "(n div 2 ^ k + 1) * 2 ^ k \<le> 2 ^ d * 2 ^ k"
    by (rule mult_le_mono1)
  then have "n div 2 ^ k * 2 ^ k + 2 ^ k \<le> 2 ^ L"
    unfolding L by (simp add: power_add algebra_simps)
  moreover have "n - n mod 2 ^ k = n div 2 ^ k * 2 ^ k"
    by (simp add: minus_mod_eq_div_mult)
  moreover have "(0::nat) < 2 ^ k" by simp
  ultimately show ?thesis by linarith
qed

lemma unat_floor: "unat ((w :: 'a::len word) AND NOT (mask k)) = unat w - unat w mod 2 ^ k"
proof -
  have le: "unat w div 2 ^ k * 2 ^ k \<le> unat w"
    by (metis div_mult_mod_eq le_add1)
  have "unat w < 2 ^ LENGTH('a)" by simp
  with le have lt: "unat w div 2 ^ k * 2 ^ k < 2 ^ LENGTH('a)"
    by (rule le_less_trans)
  have "unat (push_bit k (drop_bit k w)) = take_bit LENGTH('a) (push_bit k (unat (drop_bit k w)))"
    by (simp only: unsigned_push_bit_eq)
  also have "unat (drop_bit k w) = drop_bit k (unat w)"
    by (simp only: unat_drop_bit_eq)
  also have "push_bit k (drop_bit k (unat w)) = unat w div 2 ^ k * 2 ^ k"
    by (simp only: push_bit_eq_mult drop_bit_eq_div)
  also have "take_bit LENGTH('a) \<dots> = unat w div 2 ^ k * 2 ^ k"
    using lt by (simp only: take_bit_nat_eq_self)
  also have "\<dots> = unat w - unat w mod 2 ^ k"
    by (simp add: minus_mod_eq_div_mult)
  finally show ?thesis by (simp only: and_not_mask_push_drop)
qed

lemma or_mask_plus: "(w::'a::len word) OR mask k = (w AND NOT (mask k)) + mask k"
  by (metis (no_types, lifting) and_eq_not_not_or bit.disj_conj_distrib2
    bit.double_compl disjunctive_add_eq_or or.commute word_and_not
    word_ao_absorbs(2))

lemma unat_mask_le:
  assumes "k \<le> LENGTH('a)"
  shows "unat (mask k :: 'a::len word) = 2 ^ k - 1"
proof -
  have "unat (mask k :: 'a word) = nat (uint (mask k :: 'a word))" by simp
  also have "\<dots> = nat (mask k)" using assms by (simp only: uint_mask_eq min_absorb2)
  also have "\<dots> = 2 ^ k - 1" by (simp add: mask_eq_exp_minus_1 nat_diff_distrib nat_power_eq)
  finally show ?thesis .
qed

lemma unat_ceil:
  assumes "k \<le> LENGTH('a)"
  shows  "unat ((w :: 'a::len word) OR mask k) = unat w - unat w mod 2 ^ k + (2 ^ k - 1)"
proof -
  have "unat (w AND NOT (mask k)) + unat (mask k :: 'a word) < 2 ^ LENGTH('a)"
    unfolding unat_floor unat_mask_le [OF assms]
    by (rule nat_floor_less [OF assms]) simp
  then have "unat ((w AND NOT (mask k)) + mask k) = unat (w AND NOT (mask k)) + unat (mask k :: 'a word)"
    by (simp only: unat_add_lem)
  then show ?thesis
    by (simp only: or_mask_plus unat_floor unat_mask_le [OF assms])
qed

lemma unat_IPv6_value: "unat (IPv6_value a) = unat (network a) * 2 ^ 64 + unat (host a)"
proof -
  have up: "unat (ucast x :: 128 word) = unat x" for x :: "64 word"
  proof -
    have "unat x < 2 ^ 64" using unsigned_less [of x] by simp
    then have "unat x < 2 ^ 128" by simp
    then show ?thesis by (simp add: unsigned_ucast_eq take_bit_nat_eq_self)
  qed
  have h: "unat (ucast (host a) :: 128 word) = unat (host a)"
    by (rule up)
  have "unat (network a) < 2 ^ 64" using unsigned_less [of "network a"] by simp
  then have "unat (network a) * 2 ^ 64 < 2 ^ 64 * 2 ^ 64" by simp
  then have lt: "unat (network a) * 2 ^ 64 < 2 ^ 128" by simp
  have "unat (push_bit 64 (ucast (network a) :: 128 word))
        = take_bit LENGTH(128) (push_bit 64 (unat (ucast (network a) :: 128 word)))"
    by (simp only: unsigned_push_bit_eq)
  also have "\<dots> = take_bit 128 (unat (network a) * 2 ^ 64)"
    by (simp only: up push_bit_eq_mult) simp
  also have "\<dots> = unat (network a) * 2 ^ 64"
    using lt by (simp only: take_bit_nat_eq_self)
  finally have n: "unat (push_bit 64 (ucast (network a) :: 128 word)) = unat (network a) * 2 ^ 64" .
  have "unat (host a) < 2 ^ 64" using unsigned_less [of "host a"] by simp
  moreover have "unat (network a) * 2 ^ 64 + 2 ^ 64 \<le> 2 ^ 128"
    using \<open>unat (network a) < 2 ^ 64\<close> by simp
  ultimately have "unat (network a) * 2 ^ 64 + unat (host a) < 2 ^ LENGTH(128)"
    by simp
  then have "unat (push_bit 64 (ucast (network a) :: 128 word))
             + unat (ucast (host a) :: 128 word) < 2 ^ LENGTH(128)"
    by (simp only: h n)
  then have "unat (push_bit 64 (ucast (network a) :: 128 word) + ucast (host a))
             = unat (network a) * 2 ^ 64 + unat (host a)"
    by (simp only: unat_add_lem [THEN iffD1] h n)
  then show ?thesis
    unfolding IPv6_value_def word_cat_eq by simp
qed

lemma IPv6_value_inj: "IPv6_value a = IPv6_value b \<Longrightarrow> a = b"
proof -
  assume eq: "IPv6_value a = IPv6_value b"
  have "bit (host a) n = bit (host b) n" for n
  proof (cases "n < 64")
    case True
    then show ?thesis using IPv6_value_bit [of a n] IPv6_value_bit [of b n] eq by simp
  next
    case False
    then show ?thesis by (auto dest: bit_imp_le_length)
  qed
  then have h: "host a = host b" by (simp add: bit_eq_iff)
  have "bit (network a) n = bit (network b) n" for n
    using IPv6_value_bit [of a "n + 64"] IPv6_value_bit [of b "n + 64"] eq by simp
  then have "network a = network b" by (simp add: bit_eq_iff)
  with h show ?thesis by simp
qed

lemma IPv4_zeros_unat:
  assumes "0 \<le> p" "p \<le> 32"
  shows "unat (IPv4_network_zeros a p) = unat a - unat a mod 2 ^ nat (32 - p)"
proof (cases "p = 0")
  case True
  have "unat a < 2 ^ 32" using unsigned_less [of a] by simp
  then show ?thesis using True by (simp add: IPv4_network_zeros_def)
next
  case False
  then show ?thesis
    unfolding IPv4_network_zeros_def w32_ones
    by (simp only: if_False push_bit_minus_one_eq_not_mask unat_floor)
qed

lemma IPv4_ones_unat:
  assumes "0 \<le> p" "p \<le> 32"
  shows "unat (IPv4_network_ones a p)
         = unat a - unat a mod 2 ^ nat (32 - p) + (2 ^ nat (32 - p) - 1)"
proof (cases "p = 0")
  case True
  have "unat a < 2 ^ 32" using unsigned_less [of a] by simp
  then show ?thesis using True by (simp add: IPv4_network_ones_def)
next
  case False
  have "nat (32 - p) \<le> LENGTH(32)" using assms by simp
  from unat_ceil [OF this, of a] False show ?thesis
    unfolding IPv4_network_ones_def w32_ones
    by (simp only: if_False push_bit_minus_one_eq_not_mask bit.double_compl)
qed

lemma IPv4_class_ok: "class_ok IPv4_class unat"
proof -
  have "unat (a + 1) = unat a + 1" if "unat a + 1 < 2 ^ 32" for a :: "32 word"
    using that unat_add_lem [of a 1] by simp
  moreover have "unat (a - 1) = unat a - 1" if "0 < unat a" for a :: "32 word"
    using that by (simp add: unat_minus_one unat_gt_0)
  moreover have "inj (unat :: 32 word \<Rightarrow> nat)"
    by (auto simp: inj_def word_unat_eq_iff)
  moreover have "unat a < 2 ^ 32" for a :: "32 word"
    using unsigned_less [of a] by simp
  ultimately show ?thesis
    unfolding class_ok_def
    by (simp add: IPv4_class_def IPv4_bit_length_def IPv4_next_def IPv4_previous_def
        IPv4_less_def IPv4_less_eq_def word_less_nat_alt word_le_nat_alt
        IPv4_zeros_unat IPv4_ones_unat)
qed


lemma IPv6_zeros_unat:
  assumes "0 \<le> p" "p \<le> 128"
  shows "unat (IPv6_value (IPv6_network_zeros a p))
         = unat (IPv6_value a) - unat (IPv6_value a) mod 2 ^ nat (128 - p)"
proof -
  have "IPv6_value (IPv6_network_zeros a p) = IPv6_value a AND NOT (mask (nat (128 - p)))"
    by (rule bit_word_eqI) (auto simp: IPv6_zeros_bit [OF assms] bit_simps)
  then show ?thesis by (simp only: unat_floor)
qed

lemma IPv6_ones_unat:
  assumes "0 \<le> p" "p \<le> 128"
  shows "unat (IPv6_value (IPv6_network_ones a p))
         = unat (IPv6_value a) - unat (IPv6_value a) mod 2 ^ nat (128 - p)
           + (2 ^ nat (128 - p) - 1)"
proof -
  have "IPv6_value (IPv6_network_ones a p) = IPv6_value a OR mask (nat (128 - p))"
    by (rule bit_word_eqI) (auto simp: IPv6_ones_bit [OF assms] bit_simps)
  moreover have "nat (128 - p) \<le> LENGTH(128)" using assms by simp
  ultimately show ?thesis by (simp only: unat_ceil)
qed

lemma lex_nat:
  fixes M :: nat
  assumes "h1 < M" "h2 < M"
  shows "(n1 * M + h1 < n2 * M + h2) = (n1 < n2 \<or> (n1 = n2 \<and> h1 < h2))"
proof -
  have up: "x * M + M \<le> y * M" if "x < y" for x y :: nat
  proof -
    from that have "Suc x \<le> y" by simp
    then have "Suc x * M \<le> y * M" by (rule mult_le_mono1)
    then show ?thesis by (simp add: add.commute)
  qed
  consider "n1 < n2" | "n1 = n2" | "n2 < n1" by linarith
  then show ?thesis
  proof cases
    case 1
    with up [OF 1] assms show ?thesis by linarith
  next
    case 2
    then show ?thesis by simp
  next
    case 3
    with up [OF 3] assms show ?thesis by linarith
  qed
qed

lemma IPv6_less_unat: "IPv6_less a b = (unat (IPv6_value a) < unat (IPv6_value b))"
proof -
  have "unat (host a) < 2 ^ 64" "unat (host b) < 2 ^ 64"
    using unsigned_less [of "host a"] unsigned_less [of "host b"] by simp_all
  from lex_nat [OF this] show ?thesis
    unfolding IPv6_less_def unat_IPv6_value word_less_nat_alt word_unat_eq_iff
    by simp
qed

lemma IPv6_less_eq_unat: "IPv6_less_eq a b = (unat (IPv6_value a) \<le> unat (IPv6_value b))"
proof -
  have "IPv6_greater a b = IPv6_less b a"
    by (auto simp: IPv6_greater_def IPv6_less_def)
  then show ?thesis
    by (simp add: IPv6_less_eq_def IPv6_less_unat not_less)
qed

lemma unat_max64: "unat (- 1 :: 64 word) = 2 ^ 64 - 1"
  by (simp add: unsigned_minus_1_eq_mask mask_eq_exp_minus_1)

lemma IPv6_next_unat:
  assumes "unat (IPv6_value a) + 1 < 2 ^ 128"
  shows "unat (IPv6_value (projr (IPv6_next a 128))) = unat (IPv6_value a) + 1"
proof (cases "host a = - 1")
  case True
  then have h: "unat (host a) = 2 ^ 64 - 1" by (simp only: unat_max64)
  have "unat (network a) < 2 ^ 64 - 1"
    using assms unfolding unat_IPv6_value h by simp
  then have "unat (network a) + unat (1 :: 64 word) < 2 ^ LENGTH(64)" by simp
  then have n: "unat (network a + 1) = unat (network a) + 1"
    by (simp only: unat_add_lem [THEN iffD1] unat_1)
  have "(0 :: 64 word) < - 1" by (simp add: word_less_nat_alt unat_max64)
  then show ?thesis
    using True by (simp add: IPv6_next_def IPv6_bit_length_def unat_IPv6_value n unat_max64)
next
  case False
  then have "host a + 1 \<noteq> 0"
    by (metis add.commute add_eq_0_iff)
  then have h: "unat (host a + 1) = Suc (unat (host a))"
    by (metis add.commute unatSuc)
  then have "\<not> host a + 1 < host a"
    by (simp add: word_less_nat_alt)
  then show ?thesis
    by (simp add: IPv6_next_def IPv6_bit_length_def unat_IPv6_value h Let_def)
qed

lemma IPv6_previous_unat:
  assumes "0 < unat (IPv6_value a)"
  shows "unat (IPv6_value (projr (IPv6_previous a 128))) = unat (IPv6_value a) - 1"
proof (cases "host a = 0")
  case True
  then have "0 < unat (network a)"
    using assms unfolding unat_IPv6_value by simp
  then have n: "unat (network a - 1) = unat (network a) - 1"
    by (simp add: unat_minus_one unat_gt_0)
  have "(0 :: 64 word) < - 1" by (simp add: word_less_nat_alt unat_max64)
  then show ?thesis
    using True \<open>0 < unat (network a)\<close>
    by (simp add: IPv6_previous_def IPv6_bit_length_def unat_IPv6_value n unat_max64
        algebra_simps)
next
  case False
  then have h: "unat (host a - 1) = unat (host a) - 1"
    by (simp add: unat_minus_one)
  have "0 < unat (host a)" using False by (simp add: unat_gt_0)
  with h have "\<not> host a - 1 > host a"
    by (simp add: word_less_nat_alt)
  then show ?thesis
    using \<open>0 < unat (host a)\<close>
    by (simp add: IPv6_previous_def IPv6_bit_length_def unat_IPv6_value h Let_def)
qed

lemma IPv6_class_ok: "class_ok IPv6_class (\<lambda>a. unat (IPv6_value a))"
proof -
  have "inj (\<lambda>a. unat (IPv6_value a))"
    by (auto simp: inj_def word_unat_eq_iff [symmetric] dest: IPv6_value_inj)
  moreover have "unat (IPv6_value a) < 2 ^ 128" for a
    using unsigned_less [of "IPv6_value a"] by simp
  ultimately show ?thesis
    unfolding class_ok_def
    by (simp add: IPv6_class_def IPv6_bit_length_def IPv6_less_unat IPv6_less_eq_unat
        IPv6_zeros_unat IPv6_ones_unat IPv6_next_unat IPv6_previous_unat)
qed

section \<open>The range decomposer\<close>

text \<open>
  C10. With \<open>start = stop\<close> the loop condition \<^verbatim>\<open>start < stop\<close> fails at once, for either
  address class: \<^verbatim>\<open>add\<close> returns without invoking the callback.
\<close>

theorem add_single_address_empty:
  "add IPv4_class x x = Some [] \<and> add IPv6_class y y = Some []"
  by (simp add: add.simps IPv4_class_def IPv6_class_def IPv4_less_def IPv6_less_def)

text \<open>
  C1, at the range \<open>[0.0.0.0, 0.0.0.2]\<close>: the callback receives the single block
  \<open>0.0.0.0/31\<close>. After it the cursor is \<open>0.0.0.2\<close>, which is not below \<^verbatim>\<open>stop\<close>, and the loop
  ends with the address \<open>0.0.0.2\<close> in no block.
\<close>

theorem add_drops_last_address:
  "add IPv4_class 0 2 = Some [\<lparr>ip = 0, prefix = 31\<rparr>]"
  by code_simp


section \<open>Sorted marker vectors\<close>

lemma sorted_perms_complete:
  "mset ms = mset xs \<Longrightarrow> sorted_wrt R ms \<Longrightarrow> ms \<in> set (sorted_perms R xs)"
proof (induction ms arbitrary: xs)
  case Nil
  then show ?case by (simp add: sorted_perms.simps)
next
  case (Cons m ms')
  have mem: "m \<in> set xs"
    using Cons.prems(1) by (metis list.set_intros(1) mset_eq_setD)
  have rest: "mset ms' = mset (remove1 m xs)"
    using Cons.prems(1) by (metis mset_remove1 add_mset_remove_trivial mset.simps(2))
  have "set ms' = set (remove1 m xs)"
    using rest by (rule mset_eq_setD)
  then have ok: "\<forall>y \<in> set (remove1 m xs). R m y"
    using Cons.prems(2) by simp
  have "ms' \<in> set (sorted_perms R (remove1 m xs))"
    using Cons.IH [OF rest] Cons.prems(2) by simp
  moreover have "xs \<noteq> []" using mem by auto
  ultimately show ?case
    using mem ok by (subst sorted_perms.simps) auto
qed

lemma std_sort_in_sorted_perms:
  "std_sort T ms ms' \<Longrightarrow> ms' \<in> set (sorted_perms (\<lambda>a b. \<not> marker_less T b a) ms)"
  unfolding std_sort_def by (rule sorted_perms_complete) simp_all

section \<open>Scenario 1\<close>

lemma scenario1_sorted_perms:
  "sorted_perms (\<lambda>a b. \<not> marker_less IPv4_class b a)
     (read_markers IPv4_class scenario1_A scenario1_B)
   = [scenario1_sorted, scenario1_sorted']"
  unfolding scenario1_A_def scenario1_B_def scenario1_sorted_def scenario1_sorted'_def
  by code_simp

lemma scenario1_markers:
  "read_markers IPv4_class scenario1_A scenario1_B
   = [\<lparr>m_ip = 0x0a000000, m_type = ipm_a_open\<rparr>, \<lparr>m_ip = 0x0a0000ff, m_type = ipm_a_close\<rparr>,
      \<lparr>m_ip = 0x0a000000, m_type = ipm_b_open\<rparr>, \<lparr>m_ip = 0x0a00007f, m_type = ipm_b_close\<rparr>]"
  unfolding scenario1_A_def scenario1_B_def by code_simp

lemma scenario1_std_sort:
  "std_sort IPv4_class (read_markers IPv4_class scenario1_A scenario1_B) scenario1_sorted"
  unfolding std_sort_def scenario1_markers scenario1_sorted_def
  by (simp add: IPv4_class_def marker_less_def IPv4_less_def)

lemma scenario1_outputs:
  "process IPv4_class scenario1_sorted IntersectionKernel
     = Some [(SimpleAdapter, \<lparr>ip = 0x0a000000, prefix = 25\<rparr>)]"
  "process IPv4_class scenario1_sorted' IntersectionKernel
     = Some [(SimpleAdapter, \<lparr>ip = 0x0a000000, prefix = 25\<rparr>)]"
  "process IPv4_class scenario1_sorted UnionKernel
     = Some [(SimpleAdapter, \<lparr>ip = 0x0a000000, prefix = 24\<rparr>)]"
  "process IPv4_class scenario1_sorted' UnionKernel
     = Some [(SimpleAdapter, \<lparr>ip = 0x0a000000, prefix = 24\<rparr>)]"
  "process IPv4_class scenario1_sorted DifferenceKernel
     = Some [(DiffAdapter ''-'', \<lparr>ip = 0x0a000080, prefix = 25\<rparr>)]"
  "process IPv4_class scenario1_sorted' DifferenceKernel
     = Some [(DiffAdapter ''-'', \<lparr>ip = 0x0a000080, prefix = 25\<rparr>)]"
  unfolding scenario1_sorted_def scenario1_sorted'_def
  by code_simp+

text \<open>
  C3: what the program emits on scenario 1. For \<open>A = {10.0.0.0/24}\<close> and \<open>B = {10.0.0.0/25}\<close>,
  whatever order \<^verbatim>\<open>std::sort\<close> leaves the two markers at \<open>10.0.0.0\<close> in: intersection emits
  exactly \<open>10.0.0.0/25\<close> and union emits exactly \<open>10.0.0.0/24\<close>, as the specification says;
  the difference emits exactly the block \<open>10.0.0.128/25\<close>, the part of \<open>A\<close> outside \<open>B\<close>, but
  through the second callback, the adapter that prints \<open>-\<close>, and the first callback, the
  adapter that prints \<open>+\<close>, is not invoked. The help text of the program gives the difference of
  \<open>A\<close> and \<open>B\<close> the prefix \<open>+\<close>, and so does the specification: \<^verbatim>\<open>DifferenceKernel\<close> tests
  \<^verbatim>\<open>A == 0 && B > 0\<close>, so the track that prints \<open>+\<close> holds what is in \<open>B\<close> only.
\<close>

theorem scenario1_emits:
  assumes "std_sort IPv4_class (read_markers IPv4_class scenario1_A scenario1_B) ms"
  shows "process IPv4_class ms IntersectionKernel
           = Some [(SimpleAdapter, \<lparr>ip = 0x0a000000, prefix = 25\<rparr>)]
       \<and> process IPv4_class ms UnionKernel
           = Some [(SimpleAdapter, \<lparr>ip = 0x0a000000, prefix = 24\<rparr>)]
       \<and> process IPv4_class ms DifferenceKernel
           = Some [(DiffAdapter ''-'', \<lparr>ip = 0x0a000080, prefix = 25\<rparr>)]"
proof -
  have "ms = scenario1_sorted \<or> ms = scenario1_sorted'"
    using std_sort_in_sorted_perms [OF assms] unfolding scenario1_sorted_perms by simp
  then show ?thesis
    using scenario1_outputs by auto
qed

theorem scenario1_emits_witness:
  "std_sort IPv4_class (read_markers IPv4_class scenario1_A scenario1_B) scenario1_sorted
   \<and> process IPv4_class scenario1_sorted DifferenceKernel
       = Some [(DiffAdapter ''-'', \<lparr>ip = 0x0a000080, prefix = 25\<rparr>)]"
  using scenario1_emits [OF scenario1_std_sort] scenario1_std_sort by simp

section \<open>The range decomposer, for every address class\<close>

lemma find_upto_from:
  "List.find P [i..n] = Some k \<longleftrightarrow> i \<le> k \<and> k \<le> n \<and> P k \<and> (\<forall>j. i \<le> j \<and> j < k \<longrightarrow> \<not> P j)"
proof (induction i n rule: upto.induct)
  case (1 i n)
  show ?case
  proof (cases "i \<le> n")
    case False
    then show ?thesis by (auto simp: upto.simps [of i n])
  next
    case True
    show ?thesis
    proof (cases "P i")
      case Pi: True
      have "k = i" if "i \<le> k" "\<forall>j. i \<le> j \<and> j < k \<longrightarrow> \<not> P j"
        using that Pi by (metis order_le_less order_refl)
      then show ?thesis
        using True Pi by (auto simp: upto.simps [of i n])
    next
      case nPi: False
      have "(i \<le> k \<and> (\<forall>j. i \<le> j \<and> j < k \<longrightarrow> \<not> P j) \<and> P k)
            = (i + 1 \<le> k \<and> (\<forall>j. i + 1 \<le> j \<and> j < k \<longrightarrow> \<not> P j) \<and> P k)"
        using nPi by (smt (verit, best))
      then show ?thesis
        using True nPi "1.IH" [OF True] by (auto simp: upto.simps [of i n])
    qed
  qed
qed

lemma find_upto_None:
  "List.find P [i..n] = None \<longleftrightarrow> (\<forall>j. i \<le> j \<and> j \<le> n \<longrightarrow> \<not> P j)"
  by (auto simp: find_None_iff)

lemma pow2_sum:
  assumes "(2::nat) ^ k = 2 ^ k1 + 2 ^ k2"
  shows "k1 = k2 \<and> k = Suc k1"
proof -
  have gt: "b < k" if "(2::nat) ^ k = 2 ^ a + 2 ^ b" for a b
  proof -
    have "(2::nat) ^ b < 2 ^ k" using that by simp
    then show ?thesis by simp
  qed
  have le: "b \<le> a" if "(2::nat) ^ k = 2 ^ a + 2 ^ b" for a b
  proof -
    have "Suc b \<le> k" using gt [OF that] by simp
    then have "(2::nat) ^ Suc b \<le> 2 ^ k" by (rule power_increasing) simp
    then have "(2::nat) ^ b \<le> 2 ^ a" using that by simp
    then show ?thesis by simp
  qed
  have "k2 \<le> k1" using le [OF assms] .
  moreover have "k1 \<le> k2" using le [of k2 k1] assms by (simp add: add.commute)
  ultimately have eq: "k1 = k2" by simp
  then have "(2::nat) ^ k = 2 ^ Suc k1" using assms by simp
  then have "k = Suc k1" by (simp only: power_inject_exp)
  with eq show ?thesis by simp
qed

lemma class_ok_inj: "class_ok T val \<Longrightarrow> val a = val b \<Longrightarrow> a = b"
  by (auto simp: class_ok_def inj_def)

lemma class_ok_less: "class_ok T val \<Longrightarrow> op_less T a b = (val a < val b)"
  by (simp add: class_ok_def)

lemma class_ok_less_eq: "class_ok T val \<Longrightarrow> op_less_eq T a b = (val a \<le> val b)"
  by (simp add: class_ok_def)

lemma class_ok_zeros:
  "class_ok T val \<Longrightarrow> 0 \<le> p \<Longrightarrow> p \<le> bit_length T \<Longrightarrow>
   val (network_zeros T a p) = val a - val a mod 2 ^ nat (bit_length T - p)"
  by (simp add: class_ok_def)

lemma class_ok_ones:
  "class_ok T val \<Longrightarrow> 0 \<le> p \<Longrightarrow> p \<le> bit_length T \<Longrightarrow>
   val (network_ones T a p)
   = val a - val a mod 2 ^ nat (bit_length T - p) + (2 ^ nat (bit_length T - p) - 1)"
  by (simp add: class_ok_def)

lemma class_ok_nxt:
  "class_ok T val \<Longrightarrow> val a + 1 < 2 ^ nat (bit_length T) \<Longrightarrow> val (nxt T a) = val a + 1"
  by (simp add: class_ok_def)

lemma class_ok_bound: "class_ok T val \<Longrightarrow> val a < 2 ^ nat (bit_length T)"
  by (simp add: class_ok_def)

lemma class_ok_length: "class_ok T val \<Longrightarrow> 0 \<le> bit_length T"
  by (simp add: class_ok_def)

lemma aligned_iff_mod:
  assumes "class_ok T val" "0 \<le> p" "p \<le> bit_length T"
  shows "(network_zeros T a p = a) = (val a mod 2 ^ nat (bit_length T - p) = 0)"
proof
  assume "network_zeros T a p = a"
  then have "val a - val a mod 2 ^ nat (bit_length T - p) = val a"
    using class_ok_zeros [OF assms, of a] by simp
  moreover have "val a mod 2 ^ nat (bit_length T - p) \<le> val a" by (rule mod_less_eq_dividend)
  ultimately show "val a mod 2 ^ nat (bit_length T - p) = 0" by linarith
next
  assume "val a mod 2 ^ nat (bit_length T - p) = 0"
  then have "val (network_zeros T a p) = val a"
    using class_ok_zeros [OF assms, of a] by simp
  then show "network_zeros T a p = a" by (rule class_ok_inj [OF assms(1)])
qed

lemma aligned_hi:
  assumes "class_ok T val" "0 \<le> p" "p \<le> bit_length T" "network_zeros T a p = a"
  shows "val (network_ones T a p) = val a + (2 ^ nat (bit_length T - p) - 1)"
  using class_ok_ones [OF assms(1-3), of a] aligned_iff_mod [OF assms(1-3), of a] assms(4)
  by simp

lemma ones_top:
  assumes "class_ok T val"
  shows "val (network_ones T a 0) = 2 ^ nat (bit_length T) - 1"
proof -
  have "val a mod 2 ^ nat (bit_length T) = val a"
    using class_ok_bound [OF assms, of a] by simp
  then show ?thesis
    using class_ok_ones [OF assms, of 0 a] class_ok_length [OF assms] by simp
qed

lemma add_chain:
  assumes ok: "class_ok T val"
  shows "\<exists>bs. add T s e = Some bs \<and> chain T val (val s) (val e) bs"
proof (induction "val e - val s" arbitrary: s rule: less_induct)
  case less
  show ?case
  proof (cases "val s < val e")
    case False
    then have "add T s e = Some []"
      by (subst add.simps) (simp add: class_ok_less [OF ok])
    then show ?thesis using False by simp
  next
    case True
    let ?W = "bit_length T"
    let ?P = "\<lambda>i. network_zeros T s i = s \<and> op_less_eq T (network_ones T s i) e"
    have W0: "0 \<le> ?W" by (rule class_ok_length [OF ok])
    have zW: "network_zeros T s ?W = s"
      using aligned_iff_mod [OF ok W0 order_refl, of s] by simp
    have "val (network_ones T s ?W) = val s"
      using aligned_hi [OF ok W0 order_refl zW] by simp
    then have "?P ?W"
      using zW True by (simp add: class_ok_less_eq [OF ok])
    then have "List.find ?P [0..?W] \<noteq> None"
      using W0 by (auto simp: find_upto_None)
    then obtain i where find: "List.find ?P [0..?W] = Some i" by auto
    then have i: "0 \<le> i" "i \<le> ?W" "network_zeros T s i = s"
      "op_less_eq T (network_ones T s i) e"
      and least: "\<forall>j. 0 \<le> j \<and> j < i \<longrightarrow> \<not> ?P j"
      by (simp_all add: find_upto_from)
    let ?n = "\<lparr>ip = s, prefix = i\<rparr>"
    have hi: "val (network_ones T s i) = val s + (2 ^ nat (?W - i) - 1)"
      by (rule aligned_hi [OF ok i(1-3)])
    have hi_le: "val (network_ones T s i) \<le> val e"
      using i(4) by (simp add: class_ok_less_eq [OF ok])
    have head: "val (ip ?n) = val s \<and> aligned T ?n \<and> val (block_hi T ?n) \<le> val e
        \<and> (\<forall>j. 0 \<le> j \<and> j < prefix ?n \<longrightarrow>
              \<not> (network_zeros T (ip ?n) j = ip ?n \<and> val (network_ones T (ip ?n) j) \<le> val e))"
      using i hi_le least by (simp add: aligned_def block_lo_def block_hi_def class_ok_less_eq [OF ok])
    show ?thesis
    proof (cases "network_ones T s i = network_ones T s 0")
      case top: True
      have "add T s e = Some [?n]"
        using True find top by (subst add.simps) (simp add: class_ok_less [OF ok])
      moreover have "val e < 2 ^ nat ?W" by (rule class_ok_bound [OF ok])
      then have "val e \<le> val (block_hi T ?n) + 1"
        using top by (simp add: block_hi_def ones_top [OF ok])
      then have "chain T val (val s) (val e) [?n]"
        using head by simp
      ultimately show ?thesis by blast
    next
      case nontop: False
      let ?s' = "nxt T (network_ones T s i)"
      have "val (network_ones T s i) \<noteq> val (network_ones T s 0)"
        using nontop class_ok_inj [OF ok, of "network_ones T s i" "network_ones T s 0"]
        by blast
      then have "val (network_ones T s i) \<noteq> 2 ^ nat ?W - 1"
        by (simp only: ones_top [OF ok]) simp
      moreover have "val (network_ones T s i) < 2 ^ nat ?W"
        by (rule class_ok_bound [OF ok])
      ultimately have "val (network_ones T s i) + 1 < 2 ^ nat ?W" by linarith
      then have s': "val ?s' = val (network_ones T s i) + 1"
        by (rule class_ok_nxt [OF ok])
      have "val e - val ?s' < val e - val s"
        using s' hi True by linarith
      from less [OF this] obtain bs where
        bs: "add T ?s' e = Some bs" "chain T val (val ?s') (val e) bs" by blast
      have "add T s e = Some (?n # bs)"
        using True find nontop bs(1) by (subst add.simps) (simp add: class_ok_less [OF ok])
      moreover have "chain T val (val s) (val e) (?n # bs)"
        using head bs(2) s' by (simp add: block_hi_def)
      ultimately show ?thesis by blast
    qed
  qed
qed

lemma aligned_block_hi:
  assumes ok: "class_ok T val" and al: "aligned T n"
  shows "val (block_hi T n) = val (ip n) + (2 ^ nat (bit_length T - prefix n) - 1)"
proof -
  from al have "0 \<le> prefix n" "prefix n \<le> bit_length T"
    "network_zeros T (ip n) (prefix n) = ip n"
    by (simp_all add: aligned_def block_lo_def)
  from aligned_hi [OF ok this] show ?thesis by (simp only: block_hi_def)
qed

lemma block_range_val:
  assumes ok: "class_ok T val" and al: "aligned T n"
  shows "(x \<in> block_range T n)
         = (val (ip n) \<le> val x \<and> val x \<le> val (ip n) + (2 ^ nat (bit_length T - prefix n) - 1))"
proof -
  have "val (block_hi T n) = val (ip n) + (2 ^ nat (bit_length T - prefix n) - 1)"
    by (rule aligned_block_hi [OF ok al])
  moreover have "block_lo T n = ip n" using al by (simp add: aligned_def)
  ultimately show ?thesis
    by (simp add: block_range_def class_ok_less_eq [OF ok])
qed

lemma chain_not_mergeable:
  assumes ok: "class_ok T val" and ch: "chain T val c e (n1 # n2 # ns)"
  shows "\<not> mergeable T n1 n2"
proof
  assume "mergeable T n1 n2"
  then obtain n where al: "aligned T n"
    and rng: "block_range T n = block_range T n1 \<union> block_range T n2"
    unfolding mergeable_def by blast
  let ?W = "bit_length T"
  define k where "k = nat (?W - prefix n)"
  define k1 where "k1 = nat (?W - prefix n1)"
  define k2 where "k2 = nat (?W - prefix n2)"
  define d where "d = (2::nat) ^ k - 1"
  define d1 where "d1 = (2::nat) ^ k1 - 1"
  define d2 where "d2 = (2::nat) ^ k2 - 1"
  define a where "a = val (ip n)"
  define a1 where "a1 = val (ip n1)"
  have pw: "(2::nat) ^ k = Suc d" "(2::nat) ^ k1 = Suc d1" "(2::nat) ^ k2 = Suc d2"
    by (simp_all add: d_def d1_def d2_def)
  from ch have al1: "aligned T n1" and al2: "aligned T n2"
    and hi2e: "val (block_hi T n2) \<le> e"
    and a2: "val (ip n2) = val (block_hi T n1) + 1"
    and greedy: "\<forall>j. 0 \<le> j \<and> j < prefix n1 \<longrightarrow>
        \<not> (network_zeros T (ip n1) j = ip n1 \<and> val (network_ones T (ip n1) j) \<le> e)"
    by simp_all
  have hn: "val (block_hi T n) = a + d"
    unfolding a_def d_def k_def by (rule aligned_block_hi [OF ok al])
  have h1: "val (block_hi T n1) = a1 + d1"
    unfolding a1_def d1_def k1_def by (rule aligned_block_hi [OF ok al1])
  have a2': "val (ip n2) = a1 + d1 + 1"
    using a2 h1 by simp
  have h2: "val (block_hi T n2) = a1 + d1 + 1 + d2"
    using aligned_block_hi [OF ok al2] a2' by (simp only: d2_def k2_def)
  have r: "(x \<in> block_range T n) = (a \<le> val x \<and> val x \<le> a + d)" for x
    unfolding a_def d_def k_def by (rule block_range_val [OF ok al])
  have r1: "(x \<in> block_range T n1) = (a1 \<le> val x \<and> val x \<le> a1 + d1)" for x
    unfolding a1_def d1_def k1_def by (rule block_range_val [OF ok al1])
  have r2: "(x \<in> block_range T n2) = (a1 + d1 + 1 \<le> val x \<and> val x \<le> a1 + d1 + 1 + d2)" for x
    using block_range_val [OF ok al2, of x] a2' by (simp only: d2_def k2_def)
  have u: "(a \<le> val x \<and> val x \<le> a + d)
           = ((a1 \<le> val x \<and> val x \<le> a1 + d1)
              \<or> (a1 + d1 + 1 \<le> val x \<and> val x \<le> a1 + d1 + 1 + d2))" for x
    using rng r [of x] r1 [of x] r2 [of x] by blast
  have "a1 \<le> a" using u [of "ip n"] unfolding a_def [symmetric] by linarith
  moreover have "a \<le> a1" using u [of "ip n1"] unfolding a1_def [symmetric] by linarith
  ultimately have eq: "a = a1" by simp
  then have ipn: "ip n = ip n1" unfolding a_def a1_def by (rule class_ok_inj [OF ok])
  have "a + d \<le> a1 + d1 + 1 + d2"
    using u [of "block_hi T n"] unfolding hn by linarith
  moreover have "a1 + d1 + 1 + d2 \<le> a + d"
    using u [of "block_hi T n2"] unfolding h2 by linarith
  ultimately have dd: "d = d1 + 1 + d2"
    using eq by simp
  then have "(2::nat) ^ k = 2 ^ k1 + 2 ^ k2"
    unfolding pw by simp
  then have kk: "k = Suc k1" by (simp add: pow2_sum)
  have "0 \<le> prefix n" "prefix n < prefix n1"
    using kk al al1 unfolding k_def k1_def aligned_def by linarith+
  moreover have "network_zeros T (ip n1) (prefix n) = ip n1"
    using al ipn by (simp add: aligned_def block_lo_def)
  moreover have "val (network_ones T (ip n1) (prefix n)) \<le> e"
    using hn h2 hi2e dd eq ipn by (simp add: block_hi_def)
  ultimately show False using greedy by blast
qed

section \<open>The sweep as a sequence of flushes\<close>

lemma chain_aligned:
  "chain T val c e bs \<Longrightarrow> n \<in> set bs \<Longrightarrow> aligned T n"
  by (induction bs arbitrary: c) auto

lemma chain_adjacent:
  assumes ok: "class_ok T val"
  shows "chain T val c e bs \<Longrightarrow> Suc i < length bs \<Longrightarrow> \<not> mergeable T (bs ! i) (bs ! Suc i)"
proof (induction bs arbitrary: c i)
  case Nil
  then show ?case by simp
next
  case (Cons n ns)
  show ?case
  proof (cases i)
    case 0
    with Cons.prems obtain n2 ns' where ns: "ns = n2 # ns'" by (cases ns) auto
    show ?thesis
      using chain_not_mergeable [OF ok Cons.prems(1) [unfolded ns]] 0 ns by simp
  next
    case (Suc j)
    have "chain T val (val (block_hi T n) + 1) e ns" using Cons.prems(1) by simp
    from Cons.IH [OF this, of j] Cons.prems(2) Suc show ?thesis by simp
  qed
qed

lemma add_total:
  assumes ok: "class_ok T val"
  shows "add T s e = Some (flush_blocks T (cb, s, e))"
  using add_chain [OF ok, of s e] by (auto simp: flush_blocks_def)

lemma flush_blocks_minimal:
  assumes ok: "class_ok T val"
  shows "no_adjacent_mergeable T (flush_blocks T f) \<and> (\<forall>n \<in> set (flush_blocks T f). aligned T n)"
proof -
  obtain cb s e where f: "f = (cb, s, e)" by (cases f) auto
  from add_chain [OF ok, of s e] obtain bs where
    bs: "add T s e = Some bs" "chain T val (val s) (val e) bs" by blast
  then have "flush_blocks T f = bs" by (simp add: flush_blocks_def f)
  then show ?thesis
    using bs(2) chain_adjacent [OF ok bs(2)] chain_aligned [OF bs(2)]
    by (auto simp: no_adjacent_mergeable_def)
qed

lemma track_eq:
  assumes ok: "class_ok T val"
  shows "track T kern open iter_ip A' B'
         = Some (track_state T kern open iter_ip A' B',
                 concat (map (flush_calls T) (track_range T kern open iter_ip A' B')))"
  by (simp add: track_def track_state_def track_range_def flush_calls_def
      add_total [OF ok, of _ _ "callback A'"])

lemma callback_track_state [simp]:
  "callback (track_state T kern open iter_ip A' B') = callback A'"
  by (simp add: track_state_def)

lemma traverse_loop_flushes:
  assumes ok: "class_ok T val"
  shows "\<exists>A' B'. traverse_loop T kern ms A B
           = Some (A', B', concat (map (flush_calls T) (traverse_flushes T kern ms A B)))"
proof (induction ms arbitrary: A B)
  case Nil
  then show ?case by simp
next
  case (Cons m rest)
  obtain A1 B1 where c: "count_markers (m_type m) A B = (A1, B1)"
    by (cases "count_markers (m_type m) A B") auto
  show ?case
  proof (cases "rest \<noteq> [] \<and> m_ip (hd rest) = m_ip m")
    case True
    then show ?thesis using Cons.IH [of A1 B1] c by simp
  next
    case False
    let ?open = "m_type m = ipm_a_open \<or> m_type m = ipm_b_open"
    let ?A2 = "track_state T kern ?open (m_ip m) A1 B1"
    let ?B2 = "if \<not> adapter_empty (callback B1)
               then track_state T kern ?open (m_ip m) B1 ?A2 else B1"
    from Cons.IH [of ?A2 ?B2] obtain A' B' where
      "traverse_loop T kern rest ?A2 ?B2
       = Some (A', B', concat (map (flush_calls T) (traverse_flushes T kern rest ?A2 ?B2)))"
      by blast
    then show ?thesis
      using False c by (auto simp: track_eq [OF ok] Let_def)
  qed
qed

lemma process_flushes_eq:
  assumes ok: "class_ok T val"
  shows "process T ms kern = Some (concat (map (flush_calls T) (process_flushes T ms kern)))"
proof (cases "symetric kern")
  case True
  from traverse_loop_flushes [OF ok, of kern ms "batch_data_init T SimpleAdapter"
      "batch_data_init T EmptyOutputAdapter"]
  show ?thesis using True by (auto simp: process_def process_flushes_def traverse_def)
next
  case False
  from traverse_loop_flushes [OF ok, of kern ms "batch_data_init T (DiffAdapter ''+'')"
      "batch_data_init T (DiffAdapter ''-'')"]
  show ?thesis using False by (auto simp: process_def process_flushes_def traverse_def)
qed

section \<open>Touching blocks\<close>

lemma touching_markers:
  "read_markers IPv4_class touching_A touching_B = touching_sorted"
  unfolding touching_A_def touching_B_def touching_sorted_def by code_simp

lemma touching_std_sort:
  "std_sort IPv4_class (read_markers IPv4_class touching_A touching_B) touching_sorted"
  unfolding std_sort_def touching_markers
  by (simp add: touching_sorted_def IPv4_class_def marker_less_def IPv4_less_def)

lemma touching_union:
  "process IPv4_class touching_sorted UnionKernel
   = Some [(SimpleAdapter, \<lparr>ip = 0x0a000000, prefix = 25\<rparr>),
           (SimpleAdapter, \<lparr>ip = 0x0a000080, prefix = 25\<rparr>)]"
  unfolding touching_sorted_def by code_simp

lemma IPv4_block_range:
  "block_range IPv4_class n
   = {x. IPv4_network_zeros (ip n) (prefix n) \<le> x \<and> x \<le> IPv4_network_ones (ip n) (prefix n)}"
  by (simp add: block_range_def block_lo_def block_hi_def IPv4_class_def IPv4_less_eq_def)

lemma touching_mergeable:
  "mergeable IPv4_class \<lparr>ip = 0x0a000000, prefix = 25\<rparr> \<lparr>ip = 0x0a000080, prefix = 25\<rparr>"
proof -
  let ?n = "\<lparr>ip = 0x0a000000 :: IPv4, prefix = 24\<rparr>"
  have z: "IPv4_network_zeros 0x0a000000 24 = 0x0a000000"
    "IPv4_network_zeros 0x0a000000 25 = 0x0a000000"
    "IPv4_network_zeros 0x0a000080 25 = 0x0a000080"
    by code_simp+
  have o: "IPv4_network_ones 0x0a000000 24 = 0x0a0000ff"
    "IPv4_network_ones 0x0a000000 25 = 0x0a00007f"
    "IPv4_network_ones 0x0a000080 25 = 0x0a0000ff"
    by code_simp+
  have "aligned IPv4_class ?n"
    by (simp add: aligned_def block_lo_def IPv4_class_def IPv4_bit_length_def z)
  moreover have "block_range IPv4_class ?n
      = block_range IPv4_class \<lparr>ip = 0x0a000000, prefix = 25\<rparr>
        \<union> block_range IPv4_class \<lparr>ip = 0x0a000080, prefix = 25\<rparr>"
    unfolding IPv4_block_range by (auto simp: z o word_le_nat_alt)
  ultimately show ?thesis unfolding mergeable_def by blast
qed

lemma nested_std_sort:
  "std_sort IPv4_class (read_markers IPv4_class nested_A nested_B) nested_sorted"
proof -
  have "read_markers IPv4_class nested_A nested_B
        = [\<lparr>m_ip = 0x0a000000, m_type = ipm_a_open\<rparr>, \<lparr>m_ip = 0x0a0000ff, m_type = ipm_a_close\<rparr>,
           \<lparr>m_ip = 0x0a000000, m_type = ipm_b_open\<rparr>, \<lparr>m_ip = 0x0a00003f, m_type = ipm_b_close\<rparr>]"
    unfolding nested_A_def nested_B_def by code_simp
  then show ?thesis
    unfolding std_sort_def nested_sorted_def
    by (simp add: IPv4_class_def marker_less_def IPv4_less_def)
qed

lemma nested_flushes:
  "process_flushes IPv4_class nested_sorted DifferenceKernel
   = [(DiffAdapter ''-'', 0x0a000040, 0x0a0000ff)]"
  unfolding nested_sorted_def by code_simp

lemma nested_flush_blocks:
  "flush_blocks IPv4_class (DiffAdapter ''-'', 0x0a000040, 0x0a0000ff)
   = [\<lparr>ip = 0x0a000040, prefix = 26\<rparr>, \<lparr>ip = 0x0a000080, prefix = 25\<rparr>]"
  by code_simp

text \<open>
  What holds of every sweep. For every marker vector, so for the sorted markers of every pair
  of input block sets, and every kernel, with either address class: the pipeline returns, what
  it emits is what its flushes emit, in order, the blocks of a flush are aligned, and no two
  adjacent blocks of one flush could be replaced by a single larger aligned block. Blocks of
  different flushes are emitted as they are.
\<close>

theorem flush_blocks_minimal_per_flush:
  "process IPv4_class ms4 kern4
     = Some (concat (map (flush_calls IPv4_class) (process_flushes IPv4_class ms4 kern4)))
   \<and> (\<forall>f \<in> set (process_flushes IPv4_class ms4 kern4).
         no_adjacent_mergeable IPv4_class (flush_blocks IPv4_class f)
         \<and> (\<forall>n \<in> set (flush_blocks IPv4_class f). aligned IPv4_class n))
   \<and> process IPv6_class ms6 kern6
     = Some (concat (map (flush_calls IPv6_class) (process_flushes IPv6_class ms6 kern6)))
   \<and> (\<forall>f \<in> set (process_flushes IPv6_class ms6 kern6).
         no_adjacent_mergeable IPv6_class (flush_blocks IPv6_class f)
         \<and> (\<forall>n \<in> set (flush_blocks IPv6_class f). aligned IPv6_class n))"
  using process_flushes_eq [OF IPv4_class_ok] process_flushes_eq [OF IPv6_class_ok]
    flush_blocks_minimal [OF IPv4_class_ok] flush_blocks_minimal [OF IPv6_class_ok]
  by blast

theorem flush_blocks_minimal_per_flush_witness:
  "std_sort IPv4_class (read_markers IPv4_class nested_A nested_B) nested_sorted
   \<and> process IPv4_class nested_sorted DifferenceKernel
       = Some [(DiffAdapter ''-'', \<lparr>ip = 0x0a000040, prefix = 26\<rparr>),
               (DiffAdapter ''-'', \<lparr>ip = 0x0a000080, prefix = 25\<rparr>)]
   \<and> \<not> mergeable IPv4_class \<lparr>ip = 0x0a000040, prefix = 26\<rparr> \<lparr>ip = 0x0a000080, prefix = 25\<rparr>"
proof -
  note inst = flush_blocks_minimal_per_flush [of nested_sorted DifferenceKernel "[]" UnionKernel]
  have "process IPv4_class nested_sorted DifferenceKernel
        = Some [(DiffAdapter ''-'', \<lparr>ip = 0x0a000040, prefix = 26\<rparr>),
                (DiffAdapter ''-'', \<lparr>ip = 0x0a000080, prefix = 25\<rparr>)]"
    using inst by (simp add: nested_flushes flush_calls_def nested_flush_blocks)
  moreover have "no_adjacent_mergeable IPv4_class
      [\<lparr>ip = 0x0a000040, prefix = 26\<rparr>, \<lparr>ip = 0x0a000080, prefix = 25\<rparr>]"
    using inst by (simp add: nested_flushes nested_flush_blocks)
  then have "\<not> mergeable IPv4_class \<lparr>ip = 0x0a000040, prefix = 26\<rparr> \<lparr>ip = 0x0a000080, prefix = 25\<rparr>"
    by (auto simp: no_adjacent_mergeable_def dest: spec [of _ 0])
  ultimately show ?thesis using nested_std_sort by simp
qed

text \<open>
  Two touching input blocks: under union the pipeline emits \<open>10.0.0.0/25\<close> and
  \<open>10.0.0.128/25\<close>, which the single aligned block \<open>10.0.0.0/24\<close> replaces.
\<close>

theorem touching_blocks_not_merged:
  "std_sort IPv4_class (read_markers IPv4_class touching_A touching_B) touching_sorted
   \<and> process IPv4_class touching_sorted UnionKernel
       = Some [(SimpleAdapter, \<lparr>ip = 0x0a000000, prefix = 25\<rparr>),
               (SimpleAdapter, \<lparr>ip = 0x0a000080, prefix = 25\<rparr>)]
   \<and> mergeable IPv4_class \<lparr>ip = 0x0a000000, prefix = 25\<rparr> \<lparr>ip = 0x0a000080, prefix = 25\<rparr>"
  using touching_std_sort touching_union touching_mergeable by simp

subsection \<open>A one-address block\<close>

lemma lone_sorted_perms:
  "sorted_perms (\<lambda>a b. \<not> marker_less IPv4_class b a) (read_markers IPv4_class lone_A [])
   = [lone_open_close, lone_close_open]"
  unfolding lone_A_def lone_open_close_def lone_close_open_def by code_simp

lemma lone_markers: "read_markers IPv4_class lone_A [] = lone_open_close"
  unfolding lone_A_def lone_open_close_def by code_simp

lemma lone_std_sort:
  "std_sort IPv4_class (read_markers IPv4_class lone_A []) lone_open_close"
  "std_sort IPv4_class (read_markers IPv4_class lone_A []) lone_close_open"
  unfolding std_sort_def lone_markers
  unfolding lone_open_close_def lone_close_open_def
  by (simp_all add: IPv4_class_def marker_less_def IPv4_less_def)

lemma lone_union:
  "process IPv4_class lone_open_close UnionKernel = Some []"
  "process IPv4_class lone_close_open UnionKernel = Some []"
  unfolding lone_open_close_def lone_close_open_def by code_simp+

lemma lone_in_block: "0x0a000100 \<in> block_range IPv4_class \<lparr>ip = 0x0a000100, prefix = 32\<rparr>"
proof -
  have "IPv4_network_zeros 0x0a000100 32 = 0x0a000100" "IPv4_network_ones 0x0a000100 32 = 0x0a000100"
    by code_simp+
  then show ?thesis unfolding IPv4_block_range by simp
qed

text \<open>
  C2: the output of the pipeline is not a minimal representation of the resulting address
  set. The union of \<open>A = {10.0.1.0/32}\<close> with the empty set emits no block, in each order
  \<^verbatim>\<open>std::sort\<close> may leave the two markers in, although \<open>10.0.1.0\<close> is an address of the
  block: the kernel is evaluated once both markers at \<open>10.0.1.0\<close> are counted, when the count
  of \<open>A\<close> is \<open>0\<close> again. And the union of the touching blocks \<open>10.0.0.0/25\<close> and
  \<open>10.0.0.128/25\<close> emits both, which the one aligned block \<open>10.0.0.0/24\<close> replaces.
\<close>

theorem union_loses_single_address_block:
  "(\<forall>ms. std_sort IPv4_class (read_markers IPv4_class lone_A []) ms
         \<longrightarrow> process IPv4_class ms UnionKernel = Some [])
   \<and> 0x0a000100 \<in> block_range IPv4_class \<lparr>ip = 0x0a000100, prefix = 32\<rparr>
   \<and> std_sort IPv4_class (read_markers IPv4_class touching_A touching_B) touching_sorted
   \<and> process IPv4_class touching_sorted UnionKernel
       = Some [(SimpleAdapter, \<lparr>ip = 0x0a000000, prefix = 25\<rparr>),
               (SimpleAdapter, \<lparr>ip = 0x0a000080, prefix = 25\<rparr>)]
   \<and> mergeable IPv4_class \<lparr>ip = 0x0a000000, prefix = 25\<rparr> \<lparr>ip = 0x0a000080, prefix = 25\<rparr>"
proof -
  have 1: "\<forall>ms. std_sort IPv4_class (read_markers IPv4_class lone_A []) ms
         \<longrightarrow> process IPv4_class ms UnionKernel = Some []"
  proof (intro allI impI)
    fix ms
    assume srt: "std_sort IPv4_class (read_markers IPv4_class lone_A []) ms"
    have "ms = lone_open_close \<or> ms = lone_close_open"
      using std_sort_in_sorted_perms [OF srt] unfolding lone_sorted_perms by simp
    then show "process IPv4_class ms UnionKernel = Some []"
      using lone_union by auto
  qed
  show ?thesis
    by (intro conjI 1 lone_in_block touching_std_sort touching_union touching_mergeable)
qed

theorem union_loses_single_address_block_witness:
  "std_sort IPv4_class (read_markers IPv4_class lone_A []) lone_close_open
   \<and> process IPv4_class lone_close_open UnionKernel = Some []"
  using union_loses_single_address_block lone_std_sort(2) by blast

section \<open>The sweep as a sequence of kernel evaluations\<close>

lemma count_markers_counts:
  "count_markers t A B = (A', B') \<Longrightarrow>
   count A' = count A + delta_a t \<and> count B' = count B + delta_b t"
  by (auto simp: count_markers_def delta_a_def delta_b_def Let_def split: if_splits)

lemma groups_Nil_iff [simp]: "groups ms = [] \<longleftrightarrow> ms = []"
  by (cases ms) (auto split: list.splits)

lemma groups_nonempty: "g \<in> set (groups ms) \<Longrightarrow> g \<noteq> []"
  by (induction ms arbitrary: g) (auto split: list.splits if_splits)

lemma hd_hd_groups: "ms \<noteq> [] \<Longrightarrow> hd (hd (groups ms)) = hd ms"
  by (cases ms) (auto split: list.splits)

lemma concat_groups: "concat (groups ms) = ms"
  by (induction ms) (auto split: list.splits)

lemma groups_same_address: "g \<in> set (groups ms) \<Longrightarrow> m \<in> set g \<Longrightarrow> m_ip m = m_ip (hd g)"
proof (induction ms arbitrary: g m)
  case Nil
  then show ?case by simp
next
  case (Cons a ms)
  show ?case
  proof (cases "groups ms")
    case Nil
    with Cons.prems show ?thesis by simp
  next
    case (Cons g' gs)
    have IH: "m' \<in> set g' \<Longrightarrow> m_ip m' = m_ip (hd g')" for m'
      using Cons.IH [of g' m'] Cons by simp
    show ?thesis
    proof (cases "m_ip (hd g') = m_ip a")
      case True
      then show ?thesis
        using Cons.prems Cons Cons.IH [of g m] IH [of m] by auto
    next
      case False
      then show ?thesis
        using Cons.prems Cons Cons.IH [of g m] by auto
    qed
  qed
qed

lemma track_points_groups:
  "track_points ms A B = group_points last_is_open (groups ms) (count A) (count B)"
proof (induction ms arbitrary: A B)
  case Nil
  then show ?case by simp
next
  case (Cons m rest)
  obtain A1 B1 where c: "count_markers (m_type m) A B = (A1, B1)"
    by (cases "count_markers (m_type m) A B") auto
  note cc = count_markers_counts [OF c]
  show ?case
  proof (cases rest)
    case Nil
    then show ?thesis using c cc by (simp add: last_is_open_def is_open_def)
  next
    case (Cons m' rest')
    then have "groups rest \<noteq> []" by (simp only: groups_Nil_iff) simp
    then obtain g gs where g: "groups rest = g # gs"
      by (cases "groups rest") simp_all
    have hdg: "hd g = m'" using hd_hd_groups [of rest] g Cons by simp
    have gne: "g \<noteq> []" using groups_nonempty [of g rest] g by simp
    show ?thesis
    proof (cases "m_ip m' = m_ip m")
      case True
      then show ?thesis
        using c cc Cons g hdg gne Cons.IH [of A1 B1]
        by (simp add: last_is_open_def Let_def algebra_simps)
    next
      case False
      then show ?thesis
        using c cc Cons g hdg gne Cons.IH [of A1 B1]
        by (simp add: last_is_open_def is_open_def Let_def)
    qed
  qed
qed

lemma count_markers_eq:
  "count_markers t A B = (A\<lparr>count := count A + delta_a t\<rparr>, B\<lparr>count := count B + delta_b t\<rparr>)"
  by (simp add: count_markers_def delta_a_def delta_b_def Let_def)

lemma track_count:
  "track T kern open iter_ip A B = Some (A', out) \<Longrightarrow> count A' = count A"
  by (auto simp: track_def split: if_splits Option.bind_splits)

lemma track_points_cong:
  "count A = count A' \<Longrightarrow> count B = count B' \<Longrightarrow> track_points ms A B = track_points ms A' B'"
  by (simp add: track_points_groups)

lemma calls_of_bind:
  "calls_of (Option.bind r (\<lambda>(A', B', out). Some (A', B', f out)))
   = map_option f (calls_of r)"
  by (cases r) (auto simp: calls_of_def)

lemma traverse_loop_points:
  "calls_of (traverse_loop T kern ms A B)
   = calls_of (run_points T kern (track_points ms A B) (A\<lparr>count := ca\<rparr>) (B\<lparr>count := cb\<rparr>))"
proof (induction ms arbitrary: A B ca cb)
  case Nil
  then show ?case by (simp add: calls_of_def)
next
  case (Cons m rest)
  let ?A1 = "A\<lparr>count := count A + delta_a (m_type m)\<rparr>"
  let ?B1 = "B\<lparr>count := count B + delta_b (m_type m)\<rparr>"
  let ?open = "m_type m = ipm_a_open \<or> m_type m = ipm_b_open"
  define skip where "skip = (rest \<noteq> [] \<and> m_ip (hd rest) = m_ip m)"
  define ta where "ta = track T kern ?open (m_ip m) ?A1 ?B1"
  define tb where "tb = (\<lambda>A2. if \<not> adapter_empty (callback ?B1)
                           then track T kern ?open (m_ip m) ?B1 A2 else Some (?B1, []))"
  have tl: "traverse_loop T kern (m # rest) A B =
      (if skip then traverse_loop T kern rest ?A1 ?B1
       else Option.bind ta (\<lambda>(A, out_a). Option.bind (tb A) (\<lambda>(B, out_b).
            Option.bind (traverse_loop T kern rest A B) (\<lambda>(A', B', out).
            Some (A', B', out_a @ out_b @ out)))))"
    by (simp add: skip_def ta_def tb_def count_markers_eq Let_def)
  have tp: "track_points (m # rest) A B =
      (if skip then track_points rest ?A1 ?B1
       else (m_ip m, count A + delta_a (m_type m), count B + delta_b (m_type m), ?open)
            # track_points rest ?A1 ?B1)"
    by (simp add: skip_def count_markers_eq Let_def)
  show ?case
  proof (cases skip)
    case True
    then show ?thesis
      using Cons.IH [of ?A1 ?B1 ca cb]
      by (simp add: tl tp del: traverse_loop.simps track_points.simps)
  next
    case False
    have rp: "run_points T kern
                ((m_ip m, count A + delta_a (m_type m), count B + delta_b (m_type m), ?open) # ps)
                (A\<lparr>count := ca\<rparr>) (B\<lparr>count := cb\<rparr>)
            = Option.bind ta (\<lambda>(A, out_a). Option.bind (tb A) (\<lambda>(B, out_b).
                Option.bind (run_points T kern ps A B) (\<lambda>(A', B', out).
                Some (A', B', out_a @ out_b @ out))))" for ps
      by (simp add: ta_def tb_def Let_def)
    show ?thesis
    proof (cases ta)
      case None
      then show ?thesis
        using False
        by (simp add: tl tp rp calls_of_def
            del: traverse_loop.simps track_points.simps run_points.simps)
    next
      case (Some ra)
      obtain A2 out_a where ra: "ra = (A2, out_a)" by (cases ra) auto
      have cA: "count A2 = count ?A1"
        using track_count [of T kern ?open "m_ip m" ?A1 ?B1 A2 out_a] Some ra
        by (simp add: ta_def)
      show ?thesis
      proof (cases "tb A2")
        case None
        then show ?thesis
          using False Some ra
          by (simp add: tl tp rp calls_of_def
              del: traverse_loop.simps track_points.simps run_points.simps)
      next
        case Some2: (Some rb)
        obtain B2 out_b where rb: "rb = (B2, out_b)" by (cases rb) auto
        have cB: "count B2 = count ?B1"
          using Some2 rb track_count [of T kern ?open "m_ip m" ?B1 A2 B2 out_b]
          by (auto simp: tb_def split: if_splits)
        have pts: "track_points rest ?A1 ?B1 = track_points rest A2 B2"
          by (rule track_points_cong) (simp_all add: cA cB)
        have "calls_of (traverse_loop T kern rest A2 B2)
              = calls_of (run_points T kern (track_points rest A2 B2) A2 B2)"
          using Cons.IH [of A2 B2 "count A2" "count B2"] by simp
        then show ?thesis
          using False Some ra Some2 rb pts
          by (simp add: tl tp rp calls_of_bind
              del: traverse_loop.simps track_points.simps run_points.simps)
      qed
    qed
  qed
qed

lemma groups_heads_strict:
  fixes key :: "'a IPMarker \<Rightarrow> nat"
  assumes inj: "\<And>a b. key a = key b \<Longrightarrow> m_ip a = m_ip b"
  shows "sorted_wrt (\<lambda>a b. key a \<le> key b) ms \<Longrightarrow> sorted_wrt (<) (map (\<lambda>g. key (hd g)) (groups ms))"
proof (induction ms)
  case Nil
  then show ?case by simp
next
  case (Cons m rest)
  then have le: "\<forall>x \<in> set rest. key m \<le> key x"
    and IH: "sorted_wrt (<) (map (\<lambda>g. key (hd g)) (groups rest))"
    by simp_all
  show ?case
  proof (cases "groups rest")
    case Nil
    then show ?thesis by simp
  next
    case gs: (Cons g gs)
    then have "rest \<noteq> []" by auto
    then have "hd g = hd rest" "hd rest \<in> set rest"
      using hd_hd_groups [of rest] gs by simp_all
    then have mg: "key m \<le> key (hd g)" using le by simp
    from IH gs have tail: "\<forall>x \<in> set gs. key (hd g) < key (hd x)"
      and rest: "sorted_wrt (<) (map (\<lambda>g. key (hd g)) gs)" by simp_all
    show ?thesis
    proof (cases "m_ip (hd g) = m_ip m")
      case True
      then show ?thesis using gs mg tail rest by auto
    next
      case False
      then have "key m \<noteq> key (hd g)" using inj [of m "hd g"] by auto
      then have "key m < key (hd g)" using mg by simp
      then show ?thesis using gs False tail rest IH by auto
    qed
  qed
qed

lemma groups_heads_distinct:
  assumes ok: "class_ok T val"
    and srt: "sorted_wrt (\<lambda>a b. \<not> marker_less T b a) ms"
  shows "distinct (map (\<lambda>g. m_ip (hd g)) (groups ms))"
proof -
  let ?key = "\<lambda>m. val (m_ip m)"
  have "sorted_wrt (\<lambda>a b. ?key a \<le> ?key b) ms"
    using srt by (simp add: marker_less_def class_ok_less [OF ok] not_less)
  then have "sorted_wrt (<) (map (\<lambda>g. ?key (hd g)) (groups ms))"
    by (rule groups_heads_strict [rotated]) (rule class_ok_inj [OF ok])
  then have "distinct (map (\<lambda>g. ?key (hd g)) (groups ms))"
    by (simp add: strict_sorted_iff)
  then have "distinct (map (val \<circ> (\<lambda>g. m_ip (hd g))) (groups ms))"
    by (simp add: comp_def)
  then show ?thesis
    by (metis distinct_map list.map_comp)
qed

lemma sweep_by_groups_ok:
  assumes ok: "class_ok T val"
    and srt: "sorted_wrt (\<lambda>a b. \<not> marker_less T b a) ms"
  shows "sweep_by_groups T kern ms A B"
proof -
  have 1: "concat (groups ms) = ms" by (rule concat_groups)
  have 2: "\<forall>g \<in> set (groups ms). g \<noteq> [] \<and> (\<forall>m \<in> set g. m_ip m = m_ip (hd g))"
    using groups_nonempty groups_same_address by blast
  have 3: "distinct (map (\<lambda>g. m_ip (hd g)) (groups ms))"
    by (rule groups_heads_distinct [OF ok srt])
  have 4: "track_points ms A B = group_points last_is_open (groups ms) (count A) (count B)"
    by (rule track_points_groups)
  have 5: "calls_of (traverse_loop T kern ms A B)
           = calls_of (run_points T kern (track_points ms A B) A B)"
    using traverse_loop_points [of T kern ms A B "count A" "count B"] by simp
  show ?thesis
    unfolding sweep_by_groups_def by (intro conjI 1 2 3 4 5)
qed

lemma scenario1_sorted_wrt:
  "sorted_wrt (\<lambda>a b. \<not> marker_less IPv4_class b a) scenario1_sorted"
  using scenario1_std_sort by (simp add: std_sort_def)

lemma v6_sorted_wrt:
  "sorted_wrt (\<lambda>a b. \<not> marker_less IPv6_class b a) v6_sorted"
  unfolding v6_sorted_def by (simp add: marker_less_def IPv6_class_def IPv6_less_def)

lemma scenario1_group_points:
  "group_points last_is_open (groups scenario1_sorted) 0 0
   = [(0x0a000000, 1, 1, True), (0x0a00007f, 1, 0, False), (0x0a0000ff, 0, 0, False)]"
  unfolding scenario1_sorted_def by code_simp

text \<open>
  What holds of every sweep of a sorted marker vector, with either address class: the maximal
  runs of markers at one address are the groups of the vector, one per distinct address; the
  loop reaches \<^verbatim>\<open>track\<close>, where the kernel is evaluated, once per group, after the counter
  updates of all markers of the group; and the flag \<^verbatim>\<open>open\<close> it passes is true if and only
  if the last marker of the group, in the order of the vector, is an OPEN marker.
\<close>

theorem sweep_one_step_per_group:
  assumes "sorted_wrt (\<lambda>a b. \<not> marker_less IPv4_class b a) ms4"
    and "sorted_wrt (\<lambda>a b. \<not> marker_less IPv6_class b a) ms6"
  shows "sweep_by_groups IPv4_class kern4 ms4 A4 B4 \<and> sweep_by_groups IPv6_class kern6 ms6 A6 B6"
  using sweep_by_groups_ok [OF IPv4_class_ok assms(1)] sweep_by_groups_ok [OF IPv6_class_ok assms(2)]
  by simp

theorem sweep_one_step_per_group_witness:
  "sorted_wrt (\<lambda>a b. \<not> marker_less IPv4_class b a) scenario1_sorted
   \<and> sorted_wrt (\<lambda>a b. \<not> marker_less IPv6_class b a) v6_sorted
   \<and> track_points scenario1_sorted
        (batch_data_init IPv4_class SimpleAdapter) (batch_data_init IPv4_class EmptyOutputAdapter)
      = [(0x0a000000, 1, 1, True), (0x0a00007f, 1, 0, False), (0x0a0000ff, 0, 0, False)]"
  using sweep_one_step_per_group [OF scenario1_sorted_wrt v6_sorted_wrt,
      of UnionKernel "batch_data_init IPv4_class SimpleAdapter"
         "batch_data_init IPv4_class EmptyOutputAdapter" UnionKernel
         "batch_data_init IPv6_class SimpleAdapter" "batch_data_init IPv6_class EmptyOutputAdapter"]
    scenario1_sorted_wrt v6_sorted_wrt
  by (simp add: sweep_by_groups_def scenario1_group_points batch_data_init_def)

subsection \<open>The flag when markers tie\<close>

lemma tie_markers:
  "read_markers IPv4_class tie_A tie_B
   = [\<lparr>m_ip = 0, m_type = ipm_a_open\<rparr>, \<lparr>m_ip = 1, m_type = ipm_a_close\<rparr>,
      \<lparr>m_ip = 0, m_type = ipm_b_open\<rparr>, \<lparr>m_ip = 0, m_type = ipm_b_close\<rparr>]"
  unfolding tie_A_def tie_B_def by code_simp

lemma tie_std_sort:
  "std_sort IPv4_class (read_markers IPv4_class tie_A tie_B) tie_close_last"
  "std_sort IPv4_class (read_markers IPv4_class tie_A tie_B) tie_open_last"
  unfolding std_sort_def tie_markers
  unfolding tie_close_last_def tie_open_last_def
  by (simp_all add: IPv4_class_def marker_less_def IPv4_less_def)

lemma tie_points:
  "track_points tie_close_last
     (batch_data_init IPv4_class SimpleAdapter) (batch_data_init IPv4_class EmptyOutputAdapter)
   = [(0, 1, 0, False), (1, 0, 0, False)]"
  "track_points tie_open_last
     (batch_data_init IPv4_class SimpleAdapter) (batch_data_init IPv4_class EmptyOutputAdapter)
   = [(0, 1, 0, True), (1, 0, 0, False)]"
  "group_points some_is_open (groups tie_close_last) 0 0 = [(0, 1, 0, True), (1, 0, 0, False)]"
  "group_points some_is_open (groups tie_open_last) 0 0 = [(0, 1, 0, True), (1, 0, 0, False)]"
  unfolding tie_close_last_def tie_open_last_def by code_simp+

lemma tie_union:
  "process IPv4_class tie_close_last UnionKernel = Some []"
  "process IPv4_class tie_open_last UnionKernel = Some [(SimpleAdapter, \<lparr>ip = 0, prefix = 31\<rparr>)]"
  unfolding tie_close_last_def tie_open_last_def by code_simp+

text \<open>
  C4: the flag follows the order of the markers that share an address. For
  \<open>A = {0.0.0.0/31}\<close> and \<open>B = {0.0.0.0/32}\<close> three markers are at \<open>0.0.0.0\<close>, two of them OPEN,
  and \<^verbatim>\<open>std::sort\<close> may leave them in either of two orders shown here. The kernel is
  evaluated once at \<open>0.0.0.0\<close>, at the counts \<open>(1, 0)\<close>, in both, and the union kernel turns
  true there. Where the last of the three markers is the CLOSE of \<open>B\<close> the flag is false, the
  range starts at \<open>0.0.0.1\<close> and the union emits nothing; where it is the OPEN of \<open>A\<close> the flag
  is true and the union emits \<open>0.0.0.0/31\<close>. The flag of the specification, true when the group
  holds an OPEN marker, is true in both orders.
\<close>

theorem open_flag_follows_tie_order:
  "std_sort IPv4_class (read_markers IPv4_class tie_A tie_B) tie_close_last
   \<and> std_sort IPv4_class (read_markers IPv4_class tie_A tie_B) tie_open_last
   \<and> track_points tie_close_last
        (batch_data_init IPv4_class SimpleAdapter) (batch_data_init IPv4_class EmptyOutputAdapter)
      = [(0, 1, 0, False), (1, 0, 0, False)]
   \<and> track_points tie_open_last
        (batch_data_init IPv4_class SimpleAdapter) (batch_data_init IPv4_class EmptyOutputAdapter)
      = [(0, 1, 0, True), (1, 0, 0, False)]
   \<and> group_points some_is_open (groups tie_close_last) 0 0 = [(0, 1, 0, True), (1, 0, 0, False)]
   \<and> group_points some_is_open (groups tie_open_last) 0 0 = [(0, 1, 0, True), (1, 0, 0, False)]
   \<and> process IPv4_class tie_close_last UnionKernel = Some []
   \<and> process IPv4_class tie_open_last UnionKernel
       = Some [(SimpleAdapter, \<lparr>ip = 0, prefix = 31\<rparr>)]"
  by (intro conjI tie_std_sort tie_points tie_union)

theorem open_flag_follows_tie_order_witness:
  "process IPv4_class tie_close_last UnionKernel \<noteq> process IPv4_class tie_open_last UnionKernel"
  using open_flag_follows_tie_order by simp

section \<open>Printing and reading numbers\<close>

lemma of_char_digit_char: "d < 16 \<Longrightarrow> (of_char (digit_char d) :: nat) = (if d < 10 then 48 + d else 87 + d)"
  by (simp add: digit_char_def)

lemma is_digit_digit_char: "d < 10 \<Longrightarrow> is_digit (digit_char d)"
  by (simp add: is_digit_def of_char_digit_char)

lemma ostream_dec_nonempty: "ostream_dec n \<noteq> []"
  by (subst ostream_dec.simps) simp

lemma ostream_dec_digits: "c \<in> set (ostream_dec n) \<Longrightarrow> is_digit c"
proof (induction n arbitrary: c rule: ostream_dec.induct)
  case (1 n)
  show ?case
  proof (cases "n < 10")
    case True
    then show ?thesis using "1.prems" by (subst (asm) ostream_dec.simps) (simp add: is_digit_digit_char)
  next
    case False
    then have "c \<in> set (ostream_dec (n div 10)) \<or> c = digit_char (n mod 10)"
      using "1.prems" by (subst (asm) ostream_dec.simps) auto
    then show ?thesis
      using "1.IH" [OF False] by (auto simp: is_digit_digit_char)
  qed
qed

lemma dec_value_ostream_dec: "dec_value 0 (ostream_dec n) = int n"
proof (induction n rule: ostream_dec.induct)
  case (1 n)
  show ?case
  proof (cases "n < 10")
    case True
    then show ?thesis
      by (subst ostream_dec.simps) (simp add: dec_value_def of_char_digit_char)
  next
    case False
    have "n mod 10 < 10" by simp
    then have d: "int (of_char (digit_char (n mod 10))) = 48 + int (n mod 10)"
      by (simp add: of_char_digit_char)
    have "dec_value 0 (ostream_dec n)
          = dec_value 0 (ostream_dec (n div 10)) * 10 + int (n mod 10)"
      using False by (subst ostream_dec.simps) (simp add: dec_value_def d)
    also have "\<dots> = int (n div 10) * 10 + int (n mod 10)"
      using "1.IH" [OF False] by simp
    also have "\<dots> = int n"
      by (simp add: zdiv_int zmod_int)
    finally show ?thesis .
  qed
qed

lemma IPv4_parse_loop_digits:
  "(\<forall>c \<in> set ds. is_digit c) \<Longrightarrow>
   IPv4_parse_loop (ds @ rest) v octet cnt = IPv4_parse_loop rest v (dec_value octet ds) cnt"
  by (induction ds arbitrary: octet) (simp_all add: dec_value_def)

lemma not_is_digit_dot: "\<not> is_digit CHR ''.''"
  by (simp add: is_digit_def)

lemma IPv4_parse_loop_octet:
  assumes "n < 256" "rest \<noteq> []" "hd rest \<noteq> CHR ''.''"
  shows "IPv4_parse_loop (ostream_dec n @ CHR ''.'' # rest) v 0 cnt
         = IPv4_parse_loop rest (push_bit 8 v OR of_nat n) 0 (cnt + 1)"
  using assms
  by (simp add: IPv4_parse_loop_digits ostream_dec_digits dec_value_ostream_dec not_is_digit_dot)

lemma IPv4_parse_loop_last:
  "IPv4_parse_loop (ostream_dec n) v 0 cnt = Some (v, int n, cnt)"
  using IPv4_parse_loop_digits [of "ostream_dec n" "[]" v 0 cnt]
  by (simp add: ostream_dec_digits dec_value_ostream_dec)

lemma hd_ostream_dec_not_dot: "hd (ostream_dec n @ rest) \<noteq> CHR ''.''"
proof -
  have "hd (ostream_dec n) \<in> set (ostream_dec n)"
    using ostream_dec_nonempty by simp
  then have "is_digit (hd (ostream_dec n))" by (rule ostream_dec_digits)
  then show ?thesis
    using ostream_dec_nonempty [of n] not_is_digit_dot by (auto simp: hd_append)
qed

lemma octets_value:
  fixes v :: "32 word"
  shows "push_bit 8 (push_bit 8 (push_bit 8 (push_bit 8 0 OR (drop_bit 24 v AND 0xff))
            OR (drop_bit 16 v AND 0xff)) OR (drop_bit 8 v AND 0xff)) OR (drop_bit 0 v AND 0xff) = v"
proof -
  have m: "(0xff :: 32 word) = mask 8" by (simp add: mask_eq_exp_minus_1)
  show ?thesis
    unfolding m
  proof (rule bit_word_eqI)
    fix n
    assume "n < LENGTH(32)"
    then consider "n < 8" | "8 \<le> n" "n < 16" | "16 \<le> n" "n < 24" | "24 \<le> n" "n < 32"
      by fastforce
    then show "bit (push_bit 8 (push_bit 8 (push_bit 8 (push_bit 8 0 OR (drop_bit 24 v AND mask 8))
            OR (drop_bit 16 v AND mask 8)) OR (drop_bit 8 v AND mask 8)) OR (drop_bit 0 v AND mask 8)) n
          = bit v n"
      by cases (auto simp add: bit_simps)
  qed
qed

lemma istream_hex_value:
  "istream_hex s = (if hex_value s > 0xffff then 0xffff else of_nat (hex_value s))"
  by (simp add: istream_hex_def hex_value_def Let_def)

lemma hex_value_snoc: "hex_value (s @ [c]) = 16 * hex_value s + hex_digit_value c"
  by (simp add: hex_value_def)

lemma hex_digit_value_digit_char: "d < 16 \<Longrightarrow> hex_digit_value (digit_char d) = d"
  by (auto simp: hex_digit_value_def of_char_digit_char)

lemma is_hex_digit_digit_char: "d < 16 \<Longrightarrow> is_hex_digit (digit_char d)"
  by (auto simp: is_hex_digit_def of_char_digit_char)

lemma digit_char_lower: "d < 16 \<Longrightarrow> digit_char d \<in> set ''0123456789abcdef''"
proof -
  have "\<forall>d \<in> set [0 ..< 16]. digit_char d \<in> set ''0123456789abcdef''"
    by code_simp
  then show "d < 16 \<Longrightarrow> digit_char d \<in> set ''0123456789abcdef''"
    by simp
qed

lemma ostream_hex_nonempty: "ostream_hex n \<noteq> []"
  by (subst ostream_hex.simps) simp

lemma ostream_hex_chars: "c \<in> set (ostream_hex n) \<Longrightarrow> c \<in> digit_char ` {..< 16}"
proof (induction n arbitrary: c rule: ostream_hex.induct)
  case (1 n)
  show ?case
  proof (cases "n < 16")
    case True
    then show ?thesis using "1.prems" by (subst (asm) ostream_hex.simps) simp
  next
    case False
    then have "c \<in> set (ostream_hex (n div 16)) \<or> c = digit_char (n mod 16)"
      using "1.prems" by (subst (asm) ostream_hex.simps) auto
    then show ?thesis
      using "1.IH" [OF False] by auto
  qed
qed

lemma ostream_hex_is_hex: "c \<in> set (ostream_hex n) \<Longrightarrow> is_hex_digit c"
  using ostream_hex_chars [of c n] by (auto simp: is_hex_digit_digit_char)

lemma ostream_hex_lower: "c \<in> set (ostream_hex n) \<Longrightarrow> c \<in> set ''0123456789abcdef''"
  using ostream_hex_chars [of c n] digit_char_lower by blast

lemma hex_value_ostream_hex: "hex_value (ostream_hex n) = n"
proof (induction n rule: ostream_hex.induct)
  case (1 n)
  show ?case
  proof (cases "n < 16")
    case True
    then show ?thesis
      by (subst ostream_hex.simps) (simp add: hex_value_def hex_digit_value_digit_char)
  next
    case False
    have "hex_value (ostream_hex n) = 16 * hex_value (ostream_hex (n div 16)) + n mod 16"
      using False by (subst ostream_hex.simps) (simp add: hex_value_snoc hex_digit_value_digit_char)
    then show ?thesis using "1.IH" [OF False] by simp
  qed
qed

lemma length_ostream_hex: "n < 16 ^ Suc k \<Longrightarrow> length (ostream_hex n) \<le> Suc k"
proof (induction k arbitrary: n)
  case 0
  then show ?case by (subst ostream_hex.simps) simp
next
  case (Suc k)
  show ?case
  proof (cases "n < 16")
    case True
    then show ?thesis by (subst ostream_hex.simps) simp
  next
    case False
    have "n div 16 < 16 ^ Suc k"
      using Suc.prems by (simp add: less_mult_imp_div_less)
    from Suc.IH [OF this] False show ?thesis
      by (subst ostream_hex.simps) simp
  qed
qed

lemma ostream_hex_no_leading_zero: "n \<noteq> 0 \<Longrightarrow> hd (ostream_hex n) \<noteq> CHR ''0''"
proof (induction n rule: ostream_hex.induct)
  case (1 n)
  show ?case
  proof (cases "n < 16")
    case True
    then have "of_char (digit_char n) \<noteq> (48 :: nat)"
      using "1.prems" by (simp add: of_char_digit_char)
    then have "digit_char n \<noteq> CHR ''0''" by auto
    then show ?thesis using True by (subst ostream_hex.simps) simp
  next
    case False
    then have "n div 16 \<noteq> 0" by simp
    from "1.IH" [OF False this] False show ?thesis
      by (subst ostream_hex.simps) (simp add: ostream_hex_nonempty)
  qed
qed

lemma ostream_hex_zero: "ostream_hex 0 = ''0''"
  by code_simp

lemma parse_segment_hex:
  fixes w :: "16 word"
  shows "parse_segment (ostream_hex (unat w)) = w"
proof -
  have "unat w < 2 ^ 16" using unsigned_less [of w] by simp
  then have "\<not> unat w > 0xffff" by simp
  then show ?thesis
    by (simp add: parse_segment_def istream_hex_value hex_value_ostream_hex)
qed

lemma length_hex_segment:
  fixes w :: "16 word"
  shows "length (ostream_hex (unat w)) \<le> 4" "length (ostream_hex (unat w)) \<noteq> 0"
proof -
  have "unat w < 2 ^ 16" using unsigned_less [of w] by simp
  then have "unat w < 16 ^ Suc 3" by simp
  then show "length (ostream_hex (unat w)) \<le> 4"
    using length_ostream_hex [of "unat w" 3] by simp
  show "length (ostream_hex (unat w)) \<noteq> 0"
    by (simp add: ostream_hex_nonempty)
qed

section \<open>The round trip of a 32-bit address\<close>

lemma IPv4_roundtrip: "IPv4_parse (IPv4_to_string v) = Inr v"
proof -
  define o1 where "o1 = unat (drop_bit 24 v AND 0xff)"
  define o2 where "o2 = unat (drop_bit 16 v AND 0xff)"
  define o3 where "o3 = unat (drop_bit 8 v AND 0xff)"
  define o4 where "o4 = unat (drop_bit 0 v AND 0xff)"
  have lt: "unat (w AND 0xff) < 256" for w :: "32 word"
    using word_and_le1 [of w "0xff"] by (simp add: word_le_nat_alt)
  have b: "o1 < 256" "o2 < 256" "o3 < 256" "o4 < 256"
    unfolding o1_def o2_def o3_def o4_def by (rule lt)+
  have s: "IPv4_to_string v = ostream_dec o1 @ CHR ''.'' # ostream_dec o2 @ CHR ''.'' #
              ostream_dec o3 @ CHR ''.'' # ostream_dec o4"
    by (simp add: IPv4_to_string_def o1_def o2_def o3_def o4_def)
  have ne: "ostream_dec n @ r \<noteq> []" for n r
    by (simp add: ostream_dec_nonempty)
  have "IPv4_parse_loop (IPv4_to_string v) 0 0 0
        = IPv4_parse_loop (ostream_dec o2 @ CHR ''.'' # ostream_dec o3 @ CHR ''.'' # ostream_dec o4)
            (push_bit 8 0 OR of_nat o1) 0 (0 + 1)"
    unfolding s by (rule IPv4_parse_loop_octet [OF b(1) ne hd_ostream_dec_not_dot])
  also have "\<dots> = IPv4_parse_loop (ostream_dec o3 @ CHR ''.'' # ostream_dec o4)
            (push_bit 8 (push_bit 8 0 OR of_nat o1) OR of_nat o2) 0 (0 + 1 + 1)"
    by (rule IPv4_parse_loop_octet [OF b(2) ne hd_ostream_dec_not_dot])
  also have "\<dots> = IPv4_parse_loop (ostream_dec o4)
            (push_bit 8 (push_bit 8 (push_bit 8 0 OR of_nat o1) OR of_nat o2) OR of_nat o3) 0
            (0 + 1 + 1 + 1)"
    using IPv4_parse_loop_octet [OF b(3) ne [of o4 "[]"], of _ "0 + 1 + 1"]
      hd_ostream_dec_not_dot [of o4 "[]"] by simp
  also have "\<dots> = Some (push_bit 8 (push_bit 8 (push_bit 8 0 OR of_nat o1) OR of_nat o2) OR of_nat o3,
               int o4, 0 + 1 + 1 + 1)"
    by (rule IPv4_parse_loop_last)
  finally have "IPv4_parse_loop (IPv4_to_string v) 0 0 0
        = Some (push_bit 8 (push_bit 8 (push_bit 8 0 OR of_nat o1) OR of_nat o2) OR of_nat o3, int o4, 3)"
    by simp
  moreover have "hd (IPv4_to_string v) \<noteq> CHR ''.''"
    unfolding s by (rule hd_ostream_dec_not_dot)
  ultimately have res: "IPv4_parse (IPv4_to_string v)
      = Inr (push_bit 8 (push_bit 8 (push_bit 8 (push_bit 8 0 OR of_nat o1) OR of_nat o2)
               OR of_nat o3) OR of_nat o4)"
    using b by (simp add: IPv4_parse_def Let_def)
  have w: "of_nat o1 = drop_bit 24 v AND 0xff" "of_nat o2 = drop_bit 16 v AND 0xff"
    "of_nat o3 = drop_bit 8 v AND 0xff" "of_nat o4 = drop_bit 0 v AND 0xff"
    by (simp_all add: o1_def o2_def o3_def o4_def)
  show ?thesis
    unfolding res w by (simp only: octets_value)
qed

section \<open>The range that \<^verbatim>\<open>collapse\<close> prints as a double colon\<close>

lemma best_upto_le: "best_upto segs m cs ce \<Longrightarrow> cs \<le> ce"
  by (auto simp: best_upto_def zero_run_def)

lemma close_run:
  assumes best: "best_upto segs c cs ce"
    and run: "c < e" "e \<le> length segs" "\<forall>k \<in> {c ..< e}. segs ! k = 0"
    and left: "c = 0 \<or> segs ! (c - 1) \<noteq> 0"
    and bound: "\<forall>i' j'. zero_run segs i' j' \<and> j' \<le> m' \<longrightarrow> j' \<le> e"
    and em: "e \<le> m'"
  shows "best_upto segs m' (if e - c > ce - cs then c else cs) (if e - c > ce - cs then e else ce)"
proof -
  have zr: "zero_run segs c e" using run by (simp add: zero_run_def)
  have sub: "j' \<le> c \<or> (c \<le> i' \<and> j' \<le> e)" if r: "zero_run segs i' j'" "j' \<le> m'" for i' j'
  proof (cases "j' \<le> c")
    case True
    then show ?thesis by simp
  next
    case False
    have je: "j' \<le> e" using bound r by blast
    have "c \<le> i'"
    proof (rule ccontr)
      assume "\<not> c \<le> i'"
      then have "i' \<le> c - 1" "c - 1 < j'" "c \<noteq> 0" using False by auto
      then have "segs ! (c - 1) = 0" using r(1) by (auto simp: zero_run_def)
      with left \<open>c \<noteq> 0\<close> show False by simp
    qed
    with je show ?thesis by simp
  qed
  have old: "j' - i' < ce - cs \<or> (j' - i' = ce - cs \<and> cs \<le> i')"
    if "zero_run segs i' j'" "j' \<le> c" for i' j'
    using best that by (auto simp: best_upto_def)
  have cse: "(cs = length segs \<and> ce = length segs) \<or> (zero_run segs cs ce \<and> ce \<le> c)"
    using best by (simp add: best_upto_def)
  show ?thesis
  proof (cases "e - c > ce - cs")
    case True
    have "j' - i' < e - c \<or> (j' - i' = e - c \<and> c \<le> i')"
      if r: "zero_run segs i' j'" "j' \<le> m'" for i' j'
    proof -
      from sub [OF r] show ?thesis
      proof
        assume "j' \<le> c"
        from old [OF r(1) this] True show ?thesis by linarith
      next
        assume a: "c \<le> i' \<and> j' \<le> e"
        have "i' < j'" using r(1) by (simp add: zero_run_def)
        with a show ?thesis by linarith
      qed
    qed
    then show ?thesis
      using True zr em by (auto simp: best_upto_def)
  next
    case False
    then have len: "e - c \<le> ce - cs" by simp
    then have "ce - cs \<ge> 1" using run(1) by linarith
    then have nz: "zero_run segs cs ce \<and> ce \<le> c" using cse by auto
    have "j' - i' < ce - cs \<or> (j' - i' = ce - cs \<and> cs \<le> i')"
      if r: "zero_run segs i' j'" "j' \<le> m'" for i' j'
    proof -
      from sub [OF r] show ?thesis
      proof
        assume "j' \<le> c"
        from old [OF r(1) this] show ?thesis .
      next
        assume a: "c \<le> i' \<and> j' \<le> e"
        have "i' < j'" using r(1) by (simp add: zero_run_def)
        moreover have "cs < ce" using nz by (simp add: zero_run_def)
        ultimately show ?thesis using a len nz by linarith
      qed
    qed
    moreover have "ce \<le> m'" using nz run(1) em by linarith
    ultimately show ?thesis
      using False nz by (auto simp: best_upto_def)
  qed
qed

lemma collapse_scan_step:
  "collapse_scan (x # xs) n i st = collapse_scan xs n (i + 1) (scan_step x n i st)"
  by (cases st) (simp add: scan_step_def)

lemma run_stops_at_nonzero:
  assumes "segs ! i \<noteq> 0" "zero_run segs i' j'" "j' \<le> Suc i"
  shows "j' \<le> i"
proof (rule ccontr)
  assume "\<not> j' \<le> i"
  then have "j' = Suc i" using assms(3) by simp
  then have "i \<in> {i' ..< j'}" using assms(2) by (auto simp: zero_run_def)
  then have "segs ! i = 0" using assms(2) by (auto simp: zero_run_def)
  with assms(1) show False by simp
qed

lemma best_upto_extend:
  assumes "best_upto segs i cs ce" "segs ! i \<noteq> 0"
  shows "best_upto segs (Suc i) cs ce"
  using assms run_stops_at_nonzero [OF assms(2)]
  unfolding best_upto_def by (meson le_Suc_eq)

lemma scan_step_inv:
  assumes i: "i < length segs" and inv: "scan_inv segs i st"
  shows "scan_inv segs (Suc i) (scan_step (segs ! i) (length segs) i st)"
proof -
  let ?n = "length segs"
  obtain c cs ce where st: "st = (c, cs, ce)" by (cases st) auto
  from inv have
    cn: "c = ?n \<longrightarrow> i = 0 \<or> segs ! (i - 1) \<noteq> 0"
    and co: "c \<noteq> ?n \<longrightarrow> c < i \<and> (\<forall>k \<in> {c ..< i}. segs ! k = 0) \<and> (c = 0 \<or> segs ! (c - 1) \<noteq> 0)"
    and best: "best_upto segs (if c = ?n then i else c) cs ce"
    by (simp_all add: scan_inv_def st)
  have le: "cs \<le> ce" using best by (rule best_upto_le)
  show ?thesis
  proof (cases "segs ! i = 0")
    case zero: True
    show ?thesis
    proof (cases "c = ?n")
      case True
      then show ?thesis
        using zero i cn best by (simp add: scan_inv_def scan_step_def st)
    next
      case False
      have "\<forall>k \<in> {c ..< Suc i}. segs ! k = 0"
        using co False zero by (auto simp: less_Suc_eq)
      then show ?thesis
        using zero i co False best by (simp add: scan_inv_def scan_step_def st)
    qed
  next
    case nonzero: False
    show ?thesis
    proof (cases "c = ?n")
      case True
      then show ?thesis
        using nonzero i best best_upto_extend [of segs i cs ce]
        by (simp add: scan_inv_def scan_step_def st)
    next
      case False
      have run: "c < i" "i \<le> ?n" "\<forall>k \<in> {c ..< i}. segs ! k = 0" "c = 0 \<or> segs ! (c - 1) \<noteq> 0"
        using co False i by simp_all
      have b: "best_upto segs c cs ce" using best False by simp
      have bound: "\<forall>i' j'. zero_run segs i' j' \<and> j' \<le> Suc i \<longrightarrow> j' \<le> i"
        using run_stops_at_nonzero [OF nonzero] by blast
      have cmp: "(int i - int c > int ce - int cs) = (i - c > ce - cs)"
        using le run(1) by linarith
      from close_run [OF b run(1-3) run(4) bound] have
        "best_upto segs (Suc i) (if i - c > ce - cs then c else cs) (if i - c > ce - cs then i else ce)"
        by simp
      then show ?thesis
        using nonzero False i cmp
        by (cases "i - c > ce - cs") (simp_all add: scan_inv_def scan_step_def st)
    qed
  qed
qed

lemma scan_all_inv:
  "i \<le> length segs \<Longrightarrow> scan_inv segs i st \<Longrightarrow>
   scan_inv segs (length segs) (collapse_scan (drop i segs) (length segs) i st)"
proof (induction "length segs - i" arbitrary: i st)
  case 0
  then show ?case by simp
next
  case (Suc d)
  then have i: "i < length segs" by simp
  have d: "drop i segs = segs ! i # drop (Suc i) segs"
    using i by (simp add: Cons_nth_drop_Suc)
  have "d = length segs - Suc i" using Suc.hyps(2) by simp
  from Suc.hyps(1) [OF this _ scan_step_inv [OF i Suc.prems(2)]] i
  show ?case
    unfolding d collapse_scan_step by simp
qed

lemma scan_inv_init: "scan_inv segs 0 (length segs, length segs, length segs)"
  by (simp add: scan_inv_def best_upto_def zero_run_def)

lemma longest_first_run_iff:
  "longest_first_run segs i j
   = (zero_run segs i j
      \<and> (\<forall>i' j'. zero_run segs i' j' \<longrightarrow> j' - i' < j - i \<or> (j' - i' = j - i \<and> i \<le> i')))"
proof -
  have mem: "j' \<in> {0 .. length segs} \<and> i' \<in> {0 ..< j'}" if "zero_run segs i' j'" for i' j'
    using that by (simp add: zero_run_def)
  show ?thesis
    unfolding longest_first_run_def using mem by blast
qed

lemma collapse_range_best:
  "\<exists>cs' ce'. best_upto segs (length segs) cs' ce'
     \<and> collapse_range segs = (if int ce' - int cs' = 1 then length segs else cs', ce')"
proof -
  let ?n = "length segs"
  obtain c cs ce where sc: "collapse_scan segs ?n 0 (?n, ?n, ?n) = (c, cs, ce)"
    by (cases "collapse_scan segs ?n 0 (?n, ?n, ?n)") auto
  have inv: "scan_inv segs ?n (c, cs, ce)"
    using scan_all_inv [of 0 segs, OF _ scan_inv_init] sc by simp
  then have
    co: "c \<noteq> ?n \<longrightarrow> c < ?n \<and> (\<forall>k \<in> {c ..< ?n}. segs ! k = 0) \<and> (c = 0 \<or> segs ! (c - 1) \<noteq> 0)"
    and best: "best_upto segs (if c = ?n then ?n else c) cs ce"
    by (simp_all add: scan_inv_def)
  have le: "cs \<le> ce" using best by (rule best_upto_le)
  define close where "close = (c \<noteq> ?n \<and> int ?n - int c > int ce - int cs)"
  define cs' where "cs' = (if close then c else cs)"
  define ce' where "ce' = (if close then ?n else ce)"
  have all: "best_upto segs ?n cs' ce'"
  proof (cases "c = ?n")
    case True
    then show ?thesis using best by (simp add: cs'_def ce'_def close_def)
  next
    case False
    have run: "c < ?n" "?n \<le> ?n" "\<forall>k \<in> {c ..< ?n}. segs ! k = 0" "c = 0 \<or> segs ! (c - 1) \<noteq> 0"
      using co False by simp_all
    have b: "best_upto segs c cs ce" using best False by simp
    have bound: "\<forall>i' j'. zero_run segs i' j' \<and> j' \<le> ?n \<longrightarrow> j' \<le> ?n" by simp
    have cmp: "close = (?n - c > ce - cs)"
      using le run(1) False unfolding close_def by linarith
    from close_run [OF b run(1-3) run(4) bound] show ?thesis
      by (simp add: cs'_def ce'_def cmp)
  qed
  have res: "collapse_range segs = (if int ce' - int cs' = 1 then ?n else cs', ce')"
    by (simp add: collapse_range_def Let_def sc cs'_def ce'_def close_def)
  from all res show ?thesis by blast
qed

lemma collapse_range_spec:
  "(\<forall>i j. longest_first_run segs i j \<and> 2 \<le> j - i \<longrightarrow> collapse_range segs = (i, j))
   \<and> ((\<forall>i j. zero_run segs i j \<longrightarrow> j - i < 2) \<longrightarrow> fst (collapse_range segs) = length segs)"
proof -
  let ?n = "length segs"
  obtain cs' ce' where all: "best_upto segs ?n cs' ce'"
    and res: "collapse_range segs = (if int ce' - int cs' = 1 then ?n else cs', ce')"
    using collapse_range_best by blast
  have le': "cs' \<le> ce'" using all by (rule best_upto_le)
  have allruns: "j' - i' < ce' - cs' \<or> (j' - i' = ce' - cs' \<and> cs' \<le> i')"
    if "zero_run segs i' j'" for i' j'
    using all that by (auto simp: best_upto_def zero_run_def)
  have part1: "collapse_range segs = (i, j)" if l: "longest_first_run segs i j" and two: "2 \<le> j - i" for i j
  proof -
    have zr: "zero_run segs i j" and mx: "\<And>i' j'. zero_run segs i' j' \<Longrightarrow>
        j' - i' < j - i \<or> (j' - i' = j - i \<and> i \<le> i')"
      using l unfolding longest_first_run_iff by blast+
    have a: "j - i < ce' - cs' \<or> (j - i = ce' - cs' \<and> cs' \<le> i)" by (rule allruns [OF zr])
    then have "ce' - cs' \<ge> 2" using two by linarith
    then have zr': "zero_run segs cs' ce'" using all by (auto simp: best_upto_def)
    from mx [OF zr'] a have len: "ce' - cs' = j - i" and "cs' = i" by linarith+
    moreover have "i < j" "cs' < ce'" using zr zr' by (simp_all add: zero_run_def)
    ultimately have "ce' = j" by linarith
    moreover have "int ce' - int cs' \<noteq> 1" using \<open>ce' - cs' \<ge> 2\<close> by linarith
    ultimately show ?thesis using \<open>cs' = i\<close> unfolding res by simp
  qed
  have part2: "fst (collapse_range segs) = ?n" if short: "\<forall>i j. zero_run segs i j \<longrightarrow> j - i < 2"
  proof (cases "cs' = ?n")
    case True
    then show ?thesis unfolding res by simp
  next
    case False
    then have zr': "zero_run segs cs' ce'" using all by (auto simp: best_upto_def)
    then have "ce' - cs' < 2" "cs' < ce'" using short by (auto simp: zero_run_def)
    then have "int ce' - int cs' = 1" by linarith
    then show ?thesis unfolding res by simp
  qed
  show ?thesis using part1 part2 by blast
qed

lemma collapse_range_cases:
  "(fst (collapse_range segs) = length segs \<and> (\<forall>i j. zero_run segs i j \<longrightarrow> j - i < 2))
   \<or> (\<exists>i j. collapse_range segs = (i, j) \<and> longest_first_run segs i j \<and> 2 \<le> j - i)"
proof -
  let ?n = "length segs"
  obtain cs' ce' where all: "best_upto segs ?n cs' ce'"
    and res: "collapse_range segs = (if int ce' - int cs' = 1 then ?n else cs', ce')"
    using collapse_range_best by blast
  have le': "cs' \<le> ce'" using all by (rule best_upto_le)
  have allruns: "j' - i' < ce' - cs' \<or> (j' - i' = ce' - cs' \<and> cs' \<le> i')"
    if "zero_run segs i' j'" for i' j'
    using all that by (auto simp: best_upto_def zero_run_def)
  show ?thesis
  proof (cases "ce' - cs' \<ge> 2")
    case True
    then have zr': "zero_run segs cs' ce'" using all by (auto simp: best_upto_def)
    have "longest_first_run segs cs' ce'"
      unfolding longest_first_run_iff using zr' allruns by blast
    moreover have "int ce' - int cs' \<noteq> 1" using True by linarith
    ultimately show ?thesis using True res by simp
  next
    case False
    have short: "j - i < 2" if "zero_run segs i j" for i j
      using allruns [OF that] False by linarith
    have "fst (collapse_range segs) = ?n"
    proof (cases "cs' = ?n")
      case True
      then show ?thesis unfolding res by simp
    next
      case ne: False
      then have zr': "zero_run segs cs' ce'" using all by (auto simp: best_upto_def)
      then have "cs' < ce'" by (simp add: zero_run_def)
      then have "int ce' - int cs' = 1" using False by linarith
      then show ?thesis unfolding res by simp
    qed
    with short show ?thesis by blast
  qed
qed

lemma no_long_run_iff: "no_long_run segs = (\<forall>i j. zero_run segs i j \<longrightarrow> j - i < 2)"
proof -
  have mem: "j \<in> {0 .. length segs} \<and> i \<in> {0 ..< j}" if "zero_run segs i j" for i j
    using that by (simp add: zero_run_def)
  show ?thesis unfolding no_long_run_def using mem by blast
qed

section \<open>What \<^verbatim>\<open>collapse\<close> prints\<close>

lemma concat_map_upt_Suc:
  "concat (map g [0 ..< Suc n]) = g 0 @ concat (map (\<lambda>i. g (Suc i)) [0 ..< n])"
proof -
  have "[0 ..< Suc n] = 0 # map Suc [0 ..< n]"
    by (simp add: upt_conv_Cons map_Suc_upt del: upt_Suc)
  then show ?thesis by (simp add: comp_def del: upt_Suc)
qed

lemma concat_join_colon:
  "concat (map (\<lambda>i. h (xs ! i) @ (if Suc i \<noteq> length xs then '':'' else [])) [0 ..< length xs])
   = join_colon (map h xs)"
proof (induction xs rule: induct_list012)
  case 1
  then show ?case by simp
next
  case (2 x)
  then show ?case by simp
next
  case (3 x y zs)
  have len: "length (x # y # zs) = Suc (length (y # zs))" by simp
  have "concat (map (\<lambda>i. h ((x # y # zs) ! i)
                 @ (if Suc i \<noteq> length (x # y # zs) then '':'' else [])) [0 ..< length (x # y # zs)])
        = h x @ '':'' @ concat (map (\<lambda>i. h ((y # zs) ! i)
                 @ (if Suc i \<noteq> length (y # zs) then '':'' else [])) [0 ..< length (y # zs)])"
    unfolding len concat_map_upt_Suc by (simp del: upt_Suc)
  also have "\<dots> = h x @ '':'' @ join_colon (map h (y # zs))"
    by (simp only: "3.IH"(2))
  finally show ?case by (simp del: upt_Suc)
qed

lemma upt_split: "i \<le> j \<Longrightarrow> j \<le> k \<Longrightarrow> [i ..< k] = [i ..< j] @ [j ..< k]"
  using upt_add_eq_append [of i j "k - j"] by simp

lemma collapse_print_none:
  "collapse_print segs (length segs) ce = join_colon (hex_groups segs)"
proof -
  have "collapse_print segs (length segs) ce
        = concat (map (\<lambda>i. ostream_hex (unat (segs ! i))
                          @ (if Suc i \<noteq> length segs then '':'' else [])) [0 ..< length segs])"
    unfolding collapse_print_def
    by (rule arg_cong [where f = concat], rule map_cong) auto
  then show ?thesis
    using concat_join_colon [of "\<lambda>w. ostream_hex (unat w)" segs] by (simp add: hex_groups_def)
qed

lemma collapse_print_some:
  assumes "cs < ce" "ce \<le> length segs"
  shows "collapse_print segs cs ce
         = join_colon (hex_groups (take cs segs)) @ ''::'' @ join_colon (hex_groups (drop ce segs))"
proof -
  let ?n = "length segs"
  let ?piece = "\<lambda>iter. (if iter = cs then ''::'' else [])
        @ (if iter \<ge> cs \<and> iter < ce then []
           else ostream_hex (unat (segs ! iter))
                @ (if iter + 1 \<noteq> length segs \<and> iter + 1 \<noteq> cs then '':'' else []))"
  let ?h = "\<lambda>w. ostream_hex (unat w)"
  have split: "[0 ..< ?n] = [0 ..< cs] @ [cs ..< ce] @ [ce ..< ?n]"
  proof -
    have "[0 ..< ?n] = [0 ..< cs] @ [cs ..< ?n]"
      using assms by (intro upt_split) simp_all
    moreover have "[cs ..< ?n] = [cs ..< ce] @ [ce ..< ?n]"
      using assms by (intro upt_split) simp_all
    ultimately show ?thesis by simp
  qed
  have p1: "concat (map ?piece [0 ..< cs]) = join_colon (hex_groups (take cs segs))"
  proof -
    have "map ?piece [0 ..< cs]
          = map (\<lambda>i. ?h (take cs segs ! i) @ (if Suc i \<noteq> length (take cs segs) then '':'' else []))
              [0 ..< length (take cs segs)]"
      using assms by (intro map_cong) (auto simp: min_def)
    then show ?thesis
      using concat_join_colon [of ?h "take cs segs"] by (simp add: hex_groups_def)
  qed
  have p2: "concat (map ?piece [cs ..< ce]) = ''::''"
  proof -
    have "[cs ..< ce] = cs # [Suc cs ..< ce]" using assms(1) by (simp add: upt_conv_Cons)
    moreover have "concat (map ?piece [Suc cs ..< ce]) = []"
      by (auto simp: concat_eq_Nil_conv)
    ultimately show ?thesis using assms(1) by simp
  qed
  have p3: "concat (map ?piece [ce ..< ?n]) = join_colon (hex_groups (drop ce segs))"
  proof -
    have "[ce ..< ?n] = map (\<lambda>i. i + ce) [0 ..< ?n - ce]"
      using assms(2) by (simp add: map_add_upt)
    then have "map ?piece [ce ..< ?n] = map (\<lambda>i. ?piece (i + ce)) [0 ..< ?n - ce]"
      by (simp add: comp_def)
    also have "\<dots> = map (\<lambda>i. ?h (drop ce segs ! i)
                 @ (if Suc i \<noteq> length (drop ce segs) then '':'' else []))
              [0 ..< length (drop ce segs)]"
      using assms by (intro map_cong) (auto simp: add.commute)
    finally show ?thesis
      using concat_join_colon [of ?h "drop ce segs"] by (simp add: hex_groups_def)
  qed
  show ?thesis
    unfolding collapse_print_def split using p1 p2 p3 by simp
qed

section \<open>The groups of a parsed address\<close>

lemma mask16: "(0xffff :: 64 word) = mask 16"
  by (simp add: mask_eq_exp_minus_1)

lemma bit_seg64: "bit (seg64 w j) n = (n < 16 \<and> bit w (48 - j * 16 + n))"
  unfolding seg64_def mask16
  by (auto simp: bit_simps dest: bit_imp_le_length)

lemma seg64_or:
  assumes "j < 4" "j' < 4"
  shows "seg64 (w OR push_bit ((3 - j') * 16) (ucast (x :: 16 word))) j
         = seg64 w j OR (if j = j' then x else 0)"
proof (rule bit_word_eqI)
  fix n
  assume n: "n < LENGTH(16)"
  have a: "(3 - j') * 16 = 48 - j' * 16" using assms by simp
  show "bit (seg64 (w OR push_bit ((3 - j') * 16) (ucast x)) j) n
        = bit (seg64 w j OR (if j = j' then x else 0)) n"
    using assms n unfolding a
    by (auto simp: bit_seg64 bit_simps dest: bit_imp_le_length)
qed

lemma segmentize_seg_at: "segmentize a = map (seg_at a) [0 ..< 8]"
proof -
  have "[0 ..< 8] = [0 ..< 4] @ map (\<lambda>i. i + 4) [0 ..< 4]"
    by (simp add: map_add_upt upt_split [of 0 4 8])
  then show ?thesis
    by (simp add: segmentize_def seg_at_def seg64_def comp_def del: upt_Suc)
qed

lemma length_segmentize [simp]: "length (segmentize a) = 8"
  by (simp add: segmentize_seg_at)

lemma nth_segmentize: "p < 8 \<Longrightarrow> segmentize a ! p = seg_at a p"
  by (simp add: segmentize_seg_at del: upt_Suc)

lemma seg64_eq: "(\<And>j. j < 4 \<Longrightarrow> seg64 v j = seg64 w j) \<Longrightarrow> v = w"
proof (rule bit_word_eqI)
  fix n
  assume eq: "\<And>j. j < 4 \<Longrightarrow> seg64 v j = seg64 w j" and n: "n < LENGTH(64)"
  define j where "j = 3 - n div 16"
  have q: "n div 16 \<le> 3" using n by simp
  then have "(3 - n div 16) * 16 = 48 - 16 * (n div 16)" by simp
  then have "48 - (3 - n div 16) * 16 = 16 * (n div 16)" using q by simp
  then have "48 - j * 16 + n mod 16 = 16 * (n div 16) + n mod 16" by (simp add: j_def)
  then have j: "j < 4" "48 - j * 16 + n mod 16 = n"
    by (simp_all add: j_def)
  have "bit (seg64 v j) (n mod 16) = bit (seg64 w j) (n mod 16)"
    using eq [OF j(1)] by simp
  then show "bit v n = bit w n"
    by (simp add: bit_seg64 j(2))
qed

lemma segmentize_inj: "segmentize a = segmentize b \<Longrightarrow> a = b"
proof -
  assume eq: "segmentize a = segmentize b"
  have s: "seg_at a p = seg_at b p" if "p < 8" for p
    using eq nth_segmentize [OF that, of a] nth_segmentize [OF that, of b] by simp
  have "network a = network b"
  proof (rule seg64_eq)
    fix j :: nat
    assume "j < 4"
    then show "seg64 (network a) j = seg64 (network b) j"
      using s [of j] by (simp add: seg_at_def)
  qed
  moreover have "host a = host b"
  proof (rule seg64_eq)
    fix j :: nat
    assume "j < 4"
    then show "seg64 (host a) j = seg64 (host b) j"
      using s [of "j + 4"] by (simp add: seg_at_def)
  qed
  ultimately show ?thesis by simp
qed

lemma seg_at_first_step:
  assumes "i < 8" "p < 8"
  shows "seg_at (first_step i x a) p = seg_at a p OR (if p = i then x else 0)"
proof (cases "i < 4")
  case True
  then show ?thesis
    using assms seg64_or [of p i "network a" x]
    by (auto simp: seg_at_def first_step_def)
next
  case False
  then have e: "(7 - i) * 16 = (3 - (i - 4)) * 16" by simp
  show ?thesis
    using False assms seg64_or [of "p - 4" "i - 4" "host a" x]
    unfolding seg_at_def first_step_def e by auto
qed

lemma seg_at_second_step:
  assumes "i < 8" "p < 8"
  shows "seg_at (second_step i x a) p = seg_at a p OR (if p = 7 - i then x else 0)"
proof (cases "i < 4")
  case True
  then have e: "i * 16 = (3 - (3 - i)) * 16" by simp
  show ?thesis
    using True assms seg64_or [of "p - 4" "3 - i" "host a" x]
    unfolding seg_at_def second_step_def e by auto
next
  case False
  then have e: "(i - 4) * 16 = (3 - (7 - i)) * 16" using assms by simp
  show ?thesis
    using False assms seg64_or [of p "7 - i" "network a" x]
    unfolding seg_at_def second_step_def e by auto
qed

lemma fold_first_seg:
  assumes "length first \<le> 8" "p < 8"
  shows "k \<le> length first \<Longrightarrow>
         seg_at (fold (\<lambda>i. first_step i (first ! i)) [0 ..< k] a) p
         = seg_at a p OR (if p < k then first ! p else 0)"
proof (induction k)
  case 0
  then show ?case by simp
next
  case (Suc k)
  then have "k < 8" using assms(1) by simp
  from seg_at_first_step [OF this assms(2)] Suc show ?case
    by (auto simp: less_Suc_eq or.assoc)
qed

lemma place_first_seg:
  assumes "length first \<le> 8" "p < 8"
  shows "seg_at (place_first first a) p = seg_at a p OR (if p < length first then first ! p else 0)"
proof -
  have "(\<lambda>i. first_step i (first ! i))
        = (\<lambda>i a. if i < 4
                  then a\<lparr>network := network a OR push_bit ((3 - i) * 16) (ucast (first ! i))\<rparr>
                  else a\<lparr>host := host a OR push_bit ((7 - i) * 16) (ucast (first ! i))\<rparr>)"
    by (intro ext) (simp add: first_step_def)
  then have "place_first first a = fold (\<lambda>i. first_step i (first ! i)) [0 ..< length first] a"
    by (simp only: place_first_def)
  then show ?thesis using fold_first_seg [OF assms order_refl] by simp
qed

lemma fold_second_seg:
  assumes "length second \<le> 8" "p < 8"
  shows "k \<le> length second \<Longrightarrow>
         seg_at (fold (\<lambda>i. second_step i (second ! (length second - i - 1))) [0 ..< k] a) p
         = seg_at a p OR (if 8 - k \<le> p then second ! (p - (8 - length second)) else 0)"
proof (induction k)
  case 0
  then show ?case using assms(2) by simp
next
  case (Suc k)
  then have k: "k < 8" "k < length second" using assms(1) by simp_all
  let ?f = "\<lambda>i. second_step i (second ! (length second - i - 1))"
  have IH: "seg_at (fold ?f [0 ..< k] a) p
            = seg_at a p OR (if 8 - k \<le> p then second ! (p - (8 - length second)) else 0)"
    using Suc by simp
  have "fold ?f [0 ..< Suc k] a = second_step k (second ! (length second - k - 1)) (fold ?f [0 ..< k] a)"
    by simp
  then have step: "seg_at (fold ?f [0 ..< Suc k] a) p
              = seg_at (fold ?f [0 ..< k] a) p
                OR (if p = 7 - k then second ! (length second - k - 1) else 0)"
    by (simp only: seg_at_second_step [OF k(1) assms(2)])
  show ?case
  proof (cases "p = 7 - k")
    case True
    then have c: "\<not> 8 - k \<le> p" "8 - Suc k \<le> p" using k by simp_all
    have i: "length second - k - 1 = p - (8 - length second)"
      using True k assms(1) by linarith
    show ?thesis unfolding step IH i using True c by (simp only: if_True if_False) simp
  next
    case False
    then have c: "(8 - Suc k \<le> p) = (8 - k \<le> p)" using k by linarith
    show ?thesis unfolding step IH c using False by (simp only: if_False) simp
  qed
qed

lemma place_second_seg:
  assumes "length second \<le> 8" "p < 8"
  shows "seg_at (place_second second a) p
         = seg_at a p OR (if 8 - length second \<le> p then second ! (p - (8 - length second)) else 0)"
proof -
  have "(\<lambda>i. second_step i (second ! (length second - i - 1)))
        = (\<lambda>i a. if i < 4
                  then a\<lparr>host := host a OR push_bit (i * 16)
                                   (ucast (second ! (length second - i - 1)))\<rparr>
                  else a\<lparr>network := network a OR push_bit ((i - 4) * 16)
                                   (ucast (second ! (length second - i - 1)))\<rparr>)"
    by (intro ext) (simp add: second_step_def)
  then have "place_second second a
        = fold (\<lambda>i. second_step i (second ! (length second - i - 1))) [0 ..< length second] a"
    by (simp only: place_second_def)
  then show ?thesis using fold_second_seg [OF assms order_refl] by simp
qed

lemma seg_at_zero: "seg_at \<lparr>network = 0, host = 0\<rparr> p = 0"
  by (simp add: seg_at_def seg64_def)

lemma segmentize_place:
  assumes "length first + length second \<le> 8"
  shows "segmentize (place_second second (place_first first \<lparr>network = 0, host = 0\<rparr>))
         = first @ replicate (8 - length first - length second) 0 @ second"
proof (rule nth_equalityI)
  show "length (segmentize (place_second second (place_first first \<lparr>network = 0, host = 0\<rparr>)))
        = length (first @ replicate (8 - length first - length second) 0 @ second)"
    using assms by simp
next
  fix p
  assume "p < length (segmentize (place_second second (place_first first \<lparr>network = 0, host = 0\<rparr>)))"
  then have p: "p < 8" by simp
  have l: "length first \<le> 8" "length second \<le> 8" using assms by simp_all
  consider "p < length first" | "length first \<le> p" "p < 8 - length second" | "8 - length second \<le> p"
    by linarith
  then show "segmentize (place_second second (place_first first \<lparr>network = 0, host = 0\<rparr>)) ! p
        = (first @ replicate (8 - length first - length second) 0 @ second) ! p"
  proof cases
    case 1
    then have "\<not> 8 - length second \<le> p" using assms by linarith
    then show ?thesis
      using 1 by (simp add: nth_segmentize [OF p] place_second_seg [OF l(2) p]
          place_first_seg [OF l(1) p] seg_at_zero nth_append)
  next
    case 2
    then have "p - length first < 8 - length first - length second" by linarith
    then show ?thesis
      using 2 p by (simp add: nth_segmentize [OF p] place_second_seg [OF l(2) p]
          place_first_seg [OF l(1) p] seg_at_zero nth_append)
  next
    case 3
    then have np: "\<not> p < length first" using assms by linarith
    have "p - length first - (8 - length first - length second) = p - (8 - length second)"
      using 3 assms by linarith
    moreover have "\<not> p - length first < 8 - length first - length second"
      using 3 assms by linarith
    ultimately show ?thesis
      using 3 np by (simp add: nth_segmentize [OF p] place_second_seg [OF l(2) p]
          place_first_seg [OF l(1) p] seg_at_zero nth_append)
  qed
qed

section \<open>What \<^verbatim>\<open>IPv6::parse\<close> reads\<close>

lemma colon_not_hex: "\<not> is_hex_digit CHR '':''"
  by (simp add: is_hex_digit_def)

lemma hex_not_colon: "is_hex_digit c \<Longrightarrow> c \<noteq> CHR '':''"
  using colon_not_hex by auto

lemma IPv6_parse_loop_hex:
  "(\<forall>c \<in> set h. is_hex_digit c) \<Longrightarrow>
   IPv6_parse_loop (h @ rest) f s in2 seg = IPv6_parse_loop rest f s in2 (seg @ h)"
  by (induction h arbitrary: seg) simp_all

lemma IPv6_parse_loop_segment:
  "IPv6_parse_loop (hx w @ CHR '':'' # rest) f s in2 []
   = IPv6_parse_loop rest (if in2 then f else f @ [w]) (if in2 then s @ [w] else s) in2 []"
  using length_hex_segment [of w]
  by (simp add: IPv6_parse_loop_hex ostream_hex_is_hex colon_not_hex parse_segment_hex)

lemma IPv6_parse_loop_last:
  "IPv6_parse_loop (hx w) f s in2 [] = Some (f, s, in2, hx w, False)"
  using IPv6_parse_loop_hex [of "hx w" "[]" f s in2 "[]"]
  by (simp add: ostream_hex_is_hex)

lemma IPv6_parse_loop_join:
  "xs \<noteq> [] \<Longrightarrow>
   IPv6_parse_loop (join_colon (hex_groups xs) @ rest) f s in2 []
   = IPv6_parse_loop (hx (last xs) @ rest)
       (if in2 then f else f @ butlast xs) (if in2 then s @ butlast xs else s) in2 []"
proof (induction xs arbitrary: f s rule: induct_list012)
  case 1
  then show ?case by simp
next
  case (2 x)
  then show ?case by (simp add: hex_groups_def)
next
  case (3 x y zs)
  have "IPv6_parse_loop (join_colon (hex_groups (x # y # zs)) @ rest) f s in2 []
        = IPv6_parse_loop (hx x @ CHR '':'' # (join_colon (hex_groups (y # zs)) @ rest)) f s in2 []"
    by (simp add: hex_groups_def)
  also have "\<dots> = IPv6_parse_loop (join_colon (hex_groups (y # zs)) @ rest)
        (if in2 then f else f @ [x]) (if in2 then s @ [x] else s) in2 []"
    by (rule IPv6_parse_loop_segment)
  also have "\<dots> = IPv6_parse_loop (hx (last (y # zs)) @ rest)
        (if in2 then (if in2 then f else f @ [x]) else (if in2 then f else f @ [x]) @ butlast (y # zs))
        (if in2 then (if in2 then s @ [x] else s) @ butlast (y # zs) else (if in2 then s @ [x] else s))
        in2 []"
    by (rule "3.IH"(2)) simp
  finally show ?case by simp
qed

lemma join_colon_nonempty: "xs \<noteq> [] \<Longrightarrow> join_colon (hex_groups xs) \<noteq> []"
  by (induction xs rule: induct_list012) (simp_all add: hex_groups_def ostream_hex_nonempty)

lemma hd_join_colon: "xs \<noteq> [] \<Longrightarrow> hd (join_colon (hex_groups xs) @ rest) = hd (hx (hd xs))"
proof (cases xs)
  case Nil
  then show "xs \<noteq> [] \<Longrightarrow> ?thesis" by simp
next
  case (Cons x ys)
  then show ?thesis
    by (cases ys) (simp_all add: hex_groups_def ostream_hex_nonempty)
qed

lemma last_join_colon: "xs \<noteq> [] \<Longrightarrow> last (join_colon (hex_groups xs)) = last (hx (last xs))"
proof (induction xs rule: induct_list012)
  case 1
  then show ?case by simp
next
  case (2 x)
  then show ?case by (simp add: hex_groups_def)
next
  case (3 x y zs)
  have "join_colon (hex_groups (y # zs)) \<noteq> []" by (rule join_colon_nonempty) simp
  then show ?case using "3.IH"(2) by (simp add: hex_groups_def)
qed

lemma hd_hx_hex: "is_hex_digit (hd (hx w))"
  using ostream_hex_is_hex [of "hd (hx w)" "unat w"] ostream_hex_nonempty [of "unat w"] by simp

lemma last_hx_hex: "is_hex_digit (last (hx w))"
  using ostream_hex_is_hex [of "last (hx w)" "unat w"] ostream_hex_nonempty [of "unat w"] by simp

lemma IPv6_parse_full:
  assumes "length segs = 8"
  shows "IPv6_parse (join_colon (hex_groups segs))
         = Inr (place_first segs \<lparr>network = 0, host = 0\<rparr>)"
proof -
  let ?t = "join_colon (hex_groups segs)"
  have ne: "segs \<noteq> []" using assms by auto
  then obtain c cs where t: "?t = c # cs"
    using join_colon_nonempty [OF ne] by (cases ?t) auto
  have "c = hd (hx (hd segs))" using hd_join_colon [OF ne, of "[]"] t by simp
  then have c: "c \<noteq> CHR '':''" using hd_hx_hex hex_not_colon by auto
  have lst: "last ?t \<noteq> CHR '':''"
    using last_join_colon [OF ne] last_hx_hex hex_not_colon by auto
  have loop: "IPv6_parse_loop ?t [] [] False []
              = Some (butlast segs, [], False, hx (last segs), False)"
    using IPv6_parse_loop_join [OF ne, of "[]" "[]" "[]" False]
    by (simp add: IPv6_parse_loop_last)
  have seg: "butlast segs @ [last segs] = segs" using ne by simp
  have pl: "place_second [] a = a" for a by (simp add: place_second_def)
  show ?thesis
    unfolding IPv6_parse_def Let_def t [symmetric]
    using c lst loop t assms
    by (simp add: t parse_segment_hex seg pl del: IPv6_parse_loop.simps)
qed

lemma IPv6_parse_loop_tail:
  "IPv6_parse_loop (join_colon (hex_groups post)) f s True []
   = Some (f, s @ butlast post, True, if post = [] then [] else hx (last post), False)"
proof (cases "post = []")
  case True
  then show ?thesis by (simp add: hex_groups_def)
next
  case False
  then show ?thesis
    using IPv6_parse_loop_join [OF False, of "[]" f s True]
    by (simp add: IPv6_parse_loop_last)
qed

lemma hex_groups_Nil [simp]: "hex_groups [] = []"
  by (simp add: hex_groups_def)

lemma IPv6_parse_collapsed:
  assumes "length pre + length post < 8"
  shows "IPv6_parse (join_colon (hex_groups pre) @ ''::'' @ join_colon (hex_groups post))
         = Inr (place_second post (place_first pre \<lparr>network = 0, host = 0\<rparr>))"
proof -
  let ?jp = "join_colon (hex_groups post)"
  let ?t = "join_colon (hex_groups pre) @ ''::'' @ ?jp"
  have lst: "last ?t = (if post = [] then CHR '':'' else last (hx (last post)))"
    using join_colon_nonempty [of post] last_join_colon [of post]
    by (simp add: hex_groups_def)
  have lastpost: "post \<noteq> [] \<Longrightarrow> last (hx (last post)) \<noteq> CHR '':''"
    using last_hx_hex hex_not_colon by auto
  have sn: "post \<noteq> [] \<Longrightarrow> butlast post @ [last post] = post" by simp
  have pf0: "place_first [] a = a" for a by (simp add: place_first_def)
  have ps0: "place_second [] a = a" for a by (simp add: place_second_def)
  show ?thesis
  proof (cases "pre = []")
    case True
    have t: "?t = CHR '':'' # CHR '':'' # ?jp" using True by simp
    have loop: "IPv6_parse_loop ?jp [] [] True []
                = Some ([], butlast post, True, if post = [] then [] else hx (last post), False)"
      using IPv6_parse_loop_tail [of post "[]" "[]"] by simp
    show ?thesis
    proof (cases "post = []")
      case pe: True
      then show ?thesis
        using True by (simp add: IPv6_parse_def Let_def pf0 ps0)
    next
      case False
      show ?thesis
        unfolding IPv6_parse_def Let_def
        using lst lastpost [OF False] sn [OF False] False assms True loop
        by (simp add: t parse_segment_hex pf0 del: IPv6_parse_loop.simps)
    qed
  next
    case False
    obtain c cs where t: "?t = c # cs"
      using join_colon_nonempty [OF False] by (cases ?t) auto
    have "c = hd (hx (hd pre))"
      using hd_join_colon [OF False, of "''::'' @ ?jp"] t by simp
    then have c: "c \<noteq> CHR '':''" using hd_hx_hex hex_not_colon by auto
    have "IPv6_parse_loop ?t [] [] False []
          = IPv6_parse_loop (hx (last pre) @ CHR '':'' # CHR '':'' # ?jp) (butlast pre) [] False []"
      using IPv6_parse_loop_join [OF False, of "''::'' @ ?jp" "[]" "[]" False] by simp
    also have "\<dots> = IPv6_parse_loop (CHR '':'' # ?jp) (butlast pre @ [last pre]) [] False []"
      using IPv6_parse_loop_segment [of "last pre" "CHR '':'' # ?jp" "butlast pre" "[]" False]
      by simp
    also have "\<dots> = IPv6_parse_loop ?jp pre [] True []"
      using False by (simp add: colon_not_hex)
    also have "\<dots> = Some (pre, butlast post, True, if post = [] then [] else hx (last post), False)"
      using IPv6_parse_loop_tail [of post pre "[]"] by simp
    finally have loop: "IPv6_parse_loop ?t [] [] False []
          = Some (pre, butlast post, True, if post = [] then [] else hx (last post), False)" .
    show ?thesis
    proof (cases "post = []")
      case pe: True
      have l: "last (c # cs) = CHR '':''" using lst pe unfolding t by simp
      have lp: "IPv6_parse_loop (c # cs) [] [] False [] = Some (pre, [], True, [], False)"
        using loop pe unfolding t by simp
      show ?thesis
        unfolding IPv6_parse_def Let_def t
        using l lp pe assms c
        by (simp add: ps0 del: IPv6_parse_loop.simps last.simps)
    next
      case pne: False
      have l: "last (c # cs) \<noteq> CHR '':''" using lst lastpost [OF pne] pne unfolding t by simp
      have lp: "IPv6_parse_loop (c # cs) [] [] False []
                = Some (pre, butlast post, True, hx (last post), False)"
        using loop pne unfolding t by simp
      show ?thesis
        unfolding IPv6_parse_def Let_def t
        using l lp sn [OF pne] pne assms c
        by (simp add: parse_segment_hex del: IPv6_parse_loop.simps last.simps)
    qed
  qed
qed

section \<open>The round trip of a 128-bit address\<close>

lemma zero_run_fill:
  assumes "zero_run segs i j"
  shows "take i segs @ replicate (j - i) 0 @ drop j segs = segs"
proof (rule nth_equalityI)
  have b: "i < j" "j \<le> length segs" using assms by (simp_all add: zero_run_def)
  then show "length (take i segs @ replicate (j - i) 0 @ drop j segs) = length segs" by simp
  fix k
  assume "k < length (take i segs @ replicate (j - i) 0 @ drop j segs)"
  then have k: "k < length segs" using b by simp
  have z: "i \<le> k \<Longrightarrow> k < j \<Longrightarrow> segs ! k = 0"
    using assms by (simp add: zero_run_def)
  consider "k < i" | "i \<le> k" "k < j" | "j \<le> k" by linarith
  then show "(take i segs @ replicate (j - i) 0 @ drop j segs) ! k = segs ! k"
  proof cases
    case 1
    then show ?thesis using b k by (simp add: nth_append)
  next
    case 2
    then have "k - i < j - i" by linarith
    then show ?thesis using 2 b k z by (simp add: nth_append)
  next
    case 3
    then have "k - i - (j - i) = k - j" using b by linarith
    moreover have "j + (k - j) = k" using 3 by simp
    moreover have "\<not> k - i < j - i" "\<not> k < i" using 3 b by linarith+
    ultimately show ?thesis using 3 b k by (simp add: nth_append)
  qed
qed

lemma IPv6_roundtrip: "IPv6_parse (IPv6_to_string a) = Inr a"
proof -
  let ?segs = "segmentize a"
  let ?z = "\<lparr>network = 0, host = 0\<rparr> :: IPv6"
  have len: "length ?segs = 8" by simp
  have ps0: "place_second [] x = x" for x by (simp add: place_second_def)
  from collapse_range_cases [of ?segs] show ?thesis
  proof
    assume "fst (collapse_range ?segs) = length ?segs
            \<and> (\<forall>i j. zero_run ?segs i j \<longrightarrow> j - i < 2)"
    then obtain ce where cr: "collapse_range ?segs = (length ?segs, ce)"
      by (cases "collapse_range ?segs") auto
    have str: "IPv6_to_string a = join_colon (hex_groups ?segs)"
      unfolding IPv6_to_string_def collapse_def cr
      using collapse_print_none [of ?segs ce] by simp
    have "segmentize (place_second [] (place_first ?segs ?z)) = ?segs"
      using segmentize_place [of ?segs "[]"] by simp
    then have "place_first ?segs ?z = a"
      unfolding ps0 by (rule segmentize_inj)
    then show ?thesis
      unfolding str using IPv6_parse_full [OF len] by simp
  next
    assume "\<exists>i j. collapse_range ?segs = (i, j) \<and> longest_first_run ?segs i j \<and> 2 \<le> j - i"
    then obtain i j where cr: "collapse_range ?segs = (i, j)"
      and zr: "zero_run ?segs i j"
      by (auto simp: longest_first_run_def)
    have b: "i < j" "j \<le> 8" using zr by (simp_all add: zero_run_def)
    let ?pre = "take i ?segs"
    let ?post = "drop j ?segs"
    have str: "IPv6_to_string a = join_colon (hex_groups ?pre) @ ''::'' @ join_colon (hex_groups ?post)"
      unfolding IPv6_to_string_def collapse_def cr using b
      by (simp add: collapse_print_some)
    have lens: "length ?pre = i" "length ?post = 8 - j" using b by simp_all
    have lt: "length ?pre + length ?post < 8" using b lens by linarith
    have gap: "8 - length ?pre - length ?post = j - i" using b lens by linarith
    have "segmentize (place_second ?post (place_first ?pre ?z))
          = ?pre @ replicate (8 - length ?pre - length ?post) 0 @ ?post"
      using lt by (intro segmentize_place) simp
    also have "\<dots> = ?segs" unfolding gap by (rule zero_run_fill [OF zr])
    finally have "place_second ?post (place_first ?pre ?z) = a"
      by (rule segmentize_inj)
    then show ?thesis
      unfolding str using IPv6_parse_collapsed [OF lt] by simp
  qed
qed

section \<open>Example addresses\<close>

lemma digit_char_table:
  "digit_char 0 = CHR ''0'' \<and> digit_char (Suc 0) = CHR ''1'' \<and> digit_char 2 = CHR ''2''
   \<and> digit_char 3 = CHR ''3'' \<and> digit_char 4 = CHR ''4'' \<and> digit_char 5 = CHR ''5''
   \<and> digit_char 6 = CHR ''6'' \<and> digit_char 7 = CHR ''7'' \<and> digit_char 8 = CHR ''8''
   \<and> digit_char 9 = CHR ''9'' \<and> digit_char 10 = CHR ''a'' \<and> digit_char 11 = CHR ''b''
   \<and> digit_char 12 = CHR ''c'' \<and> digit_char 13 = CHR ''d'' \<and> digit_char 14 = CHR ''e''
   \<and> digit_char 15 = CHR ''f''"
  by code_simp

lemma segmentize_examples:
  "segmentize v6_first_run = [0x2001, 0xdb8, 0, 0, 1, 0, 0, 1]"
  "segmentize v6_isolated_zero = [1, 0, 2, 3, 4, 5, 6, 7]"
  "segmentize v6_zero = [0, 0, 0, 0, 0, 0, 0, 0]"
  "segmentize v6_ones = [0xffff, 0xffff, 0xffff, 0xffff, 0xffff, 0xffff, 0xffff, 0xffff]"
  unfolding v6_first_run_def v6_isolated_zero_def v6_zero_def v6_ones_def by code_simp+

lemma collapse_range_examples:
  "collapse_range [0x2001, 0xdb8, 0, 0, 1, 0, 0, 1] = (2, 4)"
  "collapse_range [0, 0, 0, 0, 0, 0, 0, 0] = (0, 8)"
  "collapse_range [0xffff, 0xffff, 0xffff, 0xffff, 0xffff, 0xffff, 0xffff, 0xffff] = (8, 8)"
  by code_simp+

lemma join_examples:
  "join_colon (hex_groups (take 2 [0x2001, 0xdb8, 0, 0, 1, 0, 0, 1])) @ ''::''
   @ join_colon (hex_groups (drop 4 [0x2001, 0xdb8, 0, 0, 1, 0, 0, 1])) = ''2001:db8::1:0:0:1''"
  "join_colon (hex_groups [1, 0, 2, 3, 4, 5, 6, 7]) = ''1:0:2:3:4:5:6:7''"
  "join_colon (hex_groups [0xffff, 0xffff, 0xffff, 0xffff, 0xffff, 0xffff, 0xffff, 0xffff])
   = ''ffff:ffff:ffff:ffff:ffff:ffff:ffff:ffff''"
  by (simp_all add: hex_groups_def ostream_hex.simps digit_char_table)

lemma to_string_examples:
  "IPv6_to_string v6_first_run = ''2001:db8::1:0:0:1''"
  "IPv6_to_string v6_zero = ''::''"
  "IPv6_to_string v6_ones = ''ffff:ffff:ffff:ffff:ffff:ffff:ffff:ffff''"
proof -
  show "IPv6_to_string v6_first_run = ''2001:db8::1:0:0:1''"
    unfolding IPv6_to_string_def collapse_def segmentize_examples collapse_range_examples
    using collapse_print_some [of 2 4 "[0x2001, 0xdb8, 0, 0, 1, 0, 0, 1]"] join_examples(1)
    by simp
  show "IPv6_to_string v6_zero = ''::''"
    unfolding IPv6_to_string_def collapse_def segmentize_examples collapse_range_examples
    using collapse_print_some [of 0 8 "[0, 0, 0, 0, 0, 0, 0, 0]"]
    by simp
  show "IPv6_to_string v6_ones = ''ffff:ffff:ffff:ffff:ffff:ffff:ffff:ffff''"
    unfolding IPv6_to_string_def collapse_def segmentize_examples collapse_range_examples
    using collapse_print_none [of "[0xffff, 0xffff, 0xffff, 0xffff, 0xffff, 0xffff, 0xffff, 0xffff]" 8]
      join_examples(3)
    by (simp add: eval_nat_numeral)
qed

lemma below_8: "i < 8 \<Longrightarrow> i = 0 \<or> i = 1 \<or> i = 2 \<or> i = 3 \<or> i = 4 \<or> i = 5 \<or> i = 6 \<or> i = (7 :: nat)"
  by linarith

lemma isolated_zero_no_long_run: "no_long_run [1, 0, 2, 3, 4, 5, 6, 7 :: 16 word]"
  unfolding no_long_run_iff
proof (intro allI impI)
  fix i j
  let ?S = "[1, 0, 2, 3, 4, 5, 6, 7 :: 16 word]"
  assume zr: "zero_run ?S i j"
  have zeros: "?S ! k = 0 \<longleftrightarrow> k = 1" if "k < 8" for k
    using below_8 [OF that] by (elim disjE) simp_all
  show "j - i < 2"
  proof (rule ccontr)
    assume "\<not> j - i < 2"
    then have lt: "Suc i < j" by linarith
    have "j \<le> 8" using zr by (simp add: zero_run_def)
    then have b: "i < 8" "Suc i < 8" using lt by linarith+
    have "i \<in> {i ..< j}" "Suc i \<in> {i ..< j}" using lt by simp_all
    then have "?S ! i = 0" "?S ! Suc i = 0"
      using zr unfolding zero_run_def by blast+
    then have "i = 1" "Suc i = 1" using zeros b by blast+
    then show False by simp
  qed
qed

lemma first_run_longest: "longest_first_run [0x2001, 0xdb8, 0, 0, 1, 0, 0, 1 :: 16 word] 2 4"
  unfolding longest_first_run_iff
proof (intro conjI allI impI)
  let ?S = "[0x2001, 0xdb8, 0, 0, 1, 0, 0, 1 :: 16 word]"
  have zeros: "?S ! k = 0 \<longleftrightarrow> k = 2 \<or> k = 3 \<or> k = 5 \<or> k = 6" if "k < 8" for k
    using below_8 [OF that] by (elim disjE) simp_all
  have "\<forall>k \<in> {2 ..< 4}. ?S ! k = 0"
  proof
    fix k :: nat
    assume "k \<in> {2 ..< 4}"
    then have "k < 8" "k = 2 \<or> k = 3" by auto
    then show "?S ! k = 0" using zeros by blast
  qed
  then show "zero_run ?S 2 4" by (simp add: zero_run_def)
  fix i j
  assume zr: "zero_run ?S i j"
  have b: "i < j" "j \<le> 8" using zr by (simp_all add: zero_run_def)
  have z: "?S ! k = 0" if "i \<le> k" "k < j" for k
    using zr that by (simp add: zero_run_def)
  have zi: "i = 2 \<or> i = 3 \<or> i = 5 \<or> i = 6"
    using z [of i] zeros [of i] b by simp
  have short: "j - i \<le> 2"
  proof (rule ccontr)
    assume "\<not> j - i \<le> 2"
    then have lt: "i + 2 < j" by linarith
    then have "i + 2 < 8" "i + 1 < 8" using b by linarith+
    moreover have "?S ! (i + 1) = 0" by (rule z) (use lt in linarith)+
    moreover have "?S ! (i + 2) = 0" by (rule z) (use lt in linarith)+
    ultimately have "i + 1 = 2 \<or> i + 1 = 3 \<or> i + 1 = 5 \<or> i + 1 = 6"
      "i + 2 = 2 \<or> i + 2 = 3 \<or> i + 2 = 5 \<or> i + 2 = 6"
      using zeros by blast+
    with zi show False by linarith
  qed
  have "2 \<le> i" using zi by linarith
  with short show "j - i < 4 - 2 \<or> (j - i = 4 - 2 \<and> 2 \<le> i)" by linarith
qed

section \<open>The canonical text of a 128-bit address\<close>

lemma segmentize_groups:
  assumes "k < 8"
  shows "segmentize a ! k = ucast (drop_bit (16 * (7 - k)) (IPv6_value a))"
proof (rule bit_word_eqI)
  fix n
  assume n: "n < LENGTH(16)"
  then have n16: "n < 16" by simp
  have l: "bit (segmentize a ! k) n
           = (if k < 4 then bit (network a) (48 - k * 16 + n) else bit (host a) (48 - (k - 4) * 16 + n))"
    using assms n16 by (simp add: nth_segmentize seg_at_def bit_seg64)
  have r: "bit (ucast (drop_bit (16 * (7 - k)) (IPv6_value a)) :: 16 word) n
           = bit (IPv6_value a) (16 * (7 - k) + n)"
    using n16 by (simp add: bit_simps)
  show "bit (segmentize a ! k) n
        = bit (ucast (drop_bit (16 * (7 - k)) (IPv6_value a)) :: 16 word) n"
  proof (cases "k < 4")
    case True
    then have "\<not> 16 * (7 - k) + n < 64" "16 * (7 - k) + n - 64 = 48 - k * 16 + n" by linarith+
    then show ?thesis unfolding l r IPv6_value_bit using True by simp
  next
    case False
    then have "16 * (7 - k) + n < 64" "16 * (7 - k) + n = 48 - (k - 4) * 16 + n"
      using assms n16 by linarith+
    then show ?thesis unfolding l r IPv6_value_bit using False by simp
  qed
qed


text \<open>
  C6. For every 128-bit address, with its eight groups as \<^verbatim>\<open>segmentize\<close> gives them, which
  are the eight 16-bit slices of the 128-bit number from the most significant down: if the
  zero run from \<^verbatim>\<open>i\<close> to \<^verbatim>\<open>j\<close> is the first of the longest zero runs and has two groups or more,
  \<^verbatim>\<open>to_string\<close> prints the groups before \<^verbatim>\<open>i\<close>, then \<^verbatim>\<open>::\<close>, then the groups from \<^verbatim>\<open>j\<close> on, so
  exactly that run is compressed; if no zero run has two groups or more, so that every zero
  group stands alone, it prints all eight groups and no \<^verbatim>\<open>::\<close>; one of the two cases holds.
  The groups are joined by single colons, and each group is printed in lower-case hexadecimal
  digits that stand for its value, as \<^verbatim>\<open>0\<close> when it is zero and without a leading zero
  otherwise.
\<close>

theorem to_string_compresses:
  "(\<forall>i j. longest_first_run (segmentize a) i j \<and> 2 \<le> j - i \<longrightarrow>
        IPv6_to_string a
        = join_colon (hex_groups (take i (segmentize a))) @ ''::''
          @ join_colon (hex_groups (drop j (segmentize a))))
   \<and> (no_long_run (segmentize a) \<longrightarrow>
        IPv6_to_string a = join_colon (hex_groups (segmentize a)))
   \<and> ((\<exists>i j. longest_first_run (segmentize a) i j \<and> 2 \<le> j - i) \<or> no_long_run (segmentize a))
   \<and> length (segmentize a) = 8
   \<and> (\<forall>w :: 16 word.
         set (ostream_hex (unat w)) \<subseteq> set ''0123456789abcdef''
         \<and> hex_value (ostream_hex (unat w)) = unat w
         \<and> (if w = 0 then ostream_hex (unat w) = ''0''
            else hd (ostream_hex (unat w)) \<noteq> CHR ''0''))
   \<and> (\<forall>k < 8. segmentize a ! k = ucast (drop_bit (16 * (7 - k)) (IPv6_value a)))"
proof -
  let ?segs = "segmentize a"
  have 6: "\<forall>k < 8. ?segs ! k = ucast (drop_bit (16 * (7 - k)) (IPv6_value a))"
    using segmentize_groups by blast
  have 1: "\<forall>i j. longest_first_run ?segs i j \<and> 2 \<le> j - i \<longrightarrow>
        IPv6_to_string a
        = join_colon (hex_groups (take i ?segs)) @ ''::'' @ join_colon (hex_groups (drop j ?segs))"
  proof (intro allI impI)
    fix i j
    assume h: "longest_first_run ?segs i j \<and> 2 \<le> j - i"
    then have cr: "collapse_range ?segs = (i, j)" using collapse_range_spec by blast
    have "i < j" "j \<le> length ?segs" using h by (simp_all add: longest_first_run_def zero_run_def)
    then show "IPv6_to_string a
        = join_colon (hex_groups (take i ?segs)) @ ''::'' @ join_colon (hex_groups (drop j ?segs))"
      unfolding IPv6_to_string_def collapse_def cr by (simp add: collapse_print_some)
  qed
  have 2: "no_long_run ?segs \<longrightarrow> IPv6_to_string a = join_colon (hex_groups ?segs)"
  proof
    assume "no_long_run ?segs"
    then have "fst (collapse_range ?segs) = length ?segs"
      using collapse_range_spec unfolding no_long_run_iff by blast
    then obtain ce where cr: "collapse_range ?segs = (length ?segs, ce)"
      by (cases "collapse_range ?segs") auto
    show "IPv6_to_string a = join_colon (hex_groups ?segs)"
      unfolding IPv6_to_string_def collapse_def cr
      using collapse_print_none [of ?segs ce] by simp
  qed
  have 3: "(\<exists>i j. longest_first_run ?segs i j \<and> 2 \<le> j - i) \<or> no_long_run ?segs"
    using collapse_range_cases [of ?segs] unfolding no_long_run_iff by blast
  have 4: "length ?segs = 8" by simp
  have 5: "\<forall>w :: 16 word.
           set (ostream_hex (unat w)) \<subseteq> set ''0123456789abcdef''
           \<and> hex_value (ostream_hex (unat w)) = unat w
           \<and> (if w = 0 then ostream_hex (unat w) = ''0''
              else hd (ostream_hex (unat w)) \<noteq> CHR ''0'')"
  proof
    fix w :: "16 word"
    have a: "set (ostream_hex (unat w)) \<subseteq> set ''0123456789abcdef''"
      using ostream_hex_lower by (intro subsetI)
    have b: "hex_value (ostream_hex (unat w)) = unat w" by (rule hex_value_ostream_hex)
    have c: "if w = 0 then ostream_hex (unat w) = ''0''
             else hd (ostream_hex (unat w)) \<noteq> CHR ''0''"
    proof (cases "w = 0")
      case True
      then show ?thesis by (simp add: ostream_hex_zero)
    next
      case False
      then have "unat w \<noteq> 0" by (simp add: unat_eq_0)
      then have "hd (ostream_hex (unat w)) \<noteq> CHR ''0''" by (rule ostream_hex_no_leading_zero)
      then show ?thesis using False by simp
    qed
    show "set (ostream_hex (unat w)) \<subseteq> set ''0123456789abcdef''
           \<and> hex_value (ostream_hex (unat w)) = unat w
           \<and> (if w = 0 then ostream_hex (unat w) = ''0''
              else hd (ostream_hex (unat w)) \<noteq> CHR ''0'')"
      by (intro conjI a b c)
  qed
  show ?thesis by (intro conjI 1 2 3 4 5 6)
qed

theorem to_string_compresses_witness:
  "longest_first_run (segmentize v6_first_run) 2 4
   \<and> segmentize v6_first_run = [0x2001, 0xdb8, 0, 0, 1, 0, 0, 1]
   \<and> IPv6_to_string v6_first_run = ''2001:db8::1:0:0:1''
   \<and> no_long_run (segmentize v6_isolated_zero)
   \<and> segmentize v6_isolated_zero = [1, 0, 2, 3, 4, 5, 6, 7]
   \<and> IPv6_to_string v6_isolated_zero = ''1:0:2:3:4:5:6:7''"
proof -
  note seg1 = segmentize_examples(1)
  note seg2 = segmentize_examples(2)
  note run = first_run_longest
  note norun = isolated_zero_no_long_run
  note inst1 = to_string_compresses [of v6_first_run, unfolded seg1, THEN conjunct1, rule_format, of 2 4]
  note inst2 = to_string_compresses [of v6_isolated_zero, unfolded seg2, THEN conjunct2,
      THEN conjunct1, rule_format]
  have two: "(2 :: nat) \<le> 4 - 2" by simp
  have t1: "IPv6_to_string v6_first_run = ''2001:db8::1:0:0:1''"
    using inst1 [OF conjI [OF run two]] unfolding join_examples(1) .
  have t2: "IPv6_to_string v6_isolated_zero = ''1:0:2:3:4:5:6:7''"
    using inst2 [OF norun] unfolding join_examples(2) .
  show ?thesis
    unfolding seg1 seg2 by (intro conjI run norun t1 t2 refl)
qed

section \<open>Parsing what was printed\<close>

text \<open>
  C5. For every 32-bit address \<^verbatim>\<open>v\<close> and every 128-bit address \<^verbatim>\<open>a\<close>, \<^verbatim>\<open>parse\<close> accepts the text
  \<^verbatim>\<open>to_string\<close> prints and returns the address that was printed.
\<close>

theorem parse_to_string_roundtrip:
  "IPv4_parse (IPv4_to_string v) = Inr v \<and> IPv6_parse (IPv6_to_string a) = Inr a"
  using IPv4_roundtrip IPv6_roundtrip by simp

text \<open>
  The round trip at the all-zero and the all-ones address of each class, and at
  \<^verbatim>\<open>2001:db8:0:0:1:0:0:1\<close>, with the text that is printed and read.
\<close>

theorem parse_to_string_roundtrip_witness:
  "IPv4_to_string 0 = ''0.0.0.0'' \<and> IPv4_parse ''0.0.0.0'' = Inr 0
   \<and> IPv4_to_string 0xffffffff = ''255.255.255.255''
   \<and> IPv4_parse ''255.255.255.255'' = Inr 0xffffffff
   \<and> IPv6_to_string v6_zero = ''::'' \<and> IPv6_parse ''::'' = Inr v6_zero
   \<and> IPv6_to_string v6_ones = ''ffff:ffff:ffff:ffff:ffff:ffff:ffff:ffff''
   \<and> IPv6_parse ''ffff:ffff:ffff:ffff:ffff:ffff:ffff:ffff'' = Inr v6_ones
   \<and> IPv6_to_string v6_first_run = ''2001:db8::1:0:0:1''
   \<and> IPv6_parse ''2001:db8::1:0:0:1'' = Inr v6_first_run"
proof -
  have r1: "IPv4_to_string 0 = ''0.0.0.0''" by code_simp
  have r2: "IPv4_to_string 0xffffffff = ''255.255.255.255''" by code_simp
  note a = parse_to_string_roundtrip [of 0 v6_zero, unfolded r1 to_string_examples]
  note b = parse_to_string_roundtrip [of "0xffffffff" v6_ones, unfolded r2 to_string_examples]
  note c = parse_to_string_roundtrip [of 0 v6_first_run, unfolded r1 to_string_examples]
  show ?thesis
    by (intro conjI r1 r2 to_string_examples a [THEN conjunct1] a [THEN conjunct2]
        b [THEN conjunct1] b [THEN conjunct2] c [THEN conjunct2])
qed

section \<open>Malformed addresses\<close>

text \<open>
  C8. \<^verbatim>\<open>IPv4::parse\<close> rejects \<^verbatim>\<open>1.2.3.4.5\<close>: at the fourth dot \<^verbatim>\<open>count\<close> becomes 4, and the test
  after the loop wants 3. \<^verbatim>\<open>IPv6::parse\<close> rejects \<^verbatim>\<open>2001::db8::1\<close>: the second empty segment
  comes when \<^verbatim>\<open>segments\<close> already points to the second vector. Each throws the error with the
  text of its constructor, and no address is returned.
\<close>

theorem malformed_inputs_rejected:
  "IPv4_parse ''1.2.3.4.5'' = Inl (MalformedAddress ''Invalid IPv4 format (1.2.3.4.5)'')
   \<and> IPv6_parse ''2001::db8::1'' = Inl (MalformedAddress ''Invalid IPv6 format (2001::db8::1)'')"
proof -
  have 4: "IPv4_parse ''1.2.3.4.5'' = Inl (MalformedAddress ''Invalid IPv4 format (1.2.3.4.5)'')"
    by code_simp
  have 6: "IPv6_parse ''2001::db8::1''
           = Inl (MalformedAddress ''Invalid IPv6 format (2001::db8::1)'')"
    by (simp add: IPv6_parse_def is_hex_digit_def)
  show ?thesis by (intro conjI 4 6)
qed

theorem malformed_inputs_rejected_witness:
  "isl (IPv4_parse ''1.2.3.4.5'') \<and> isl (IPv6_parse ''2001::db8::1'')"
  using malformed_inputs_rejected by simp

end
